theory Spec2Isabelle
  imports Complex_Main "HOL-Library.Signed_Division"
begin

unbundle bit_operations_syntax

section \<open>The fiber assigner of \<^verbatim>\<open>ets_demo.cc\<close>\<close>

text \<open>
  The development follows \<^verbatim>\<open>src/ets_demo.cc\<close>. Conventions of the embedding:
  \<^item> a C++ \<^verbatim>\<open>double\<close> is an exact \<^typ>\<open>real\<close>: inputs are finite, and rounding is not
    modelled; decimal constants of the source keep their decimal value;
  \<^item> \<^verbatim>\<open>size_t\<close> is \<^typ>\<open>nat\<close> and \<^verbatim>\<open>int\<close> is \<^typ>\<open>int\<close>. The indices of the vectors
    are bounded by their lengths and are left unbounded. In the raster, where the
    source converts a \<^verbatim>\<open>double\<close> or a \<^verbatim>\<open>size_t\<close> to the 32-bit \<^verbatim>\<open>int\<close> and multiplies
    two cell counts, the narrowing and the wrap-around are written out;
  \<^item> a \<^verbatim>\<open>vector\<close> is a list; \<^verbatim>\<open>v[i]\<close> is \<open>v ! i\<close> and a store is \<open>v[i := a]\<close>. An
    index beyond the end is undefined behaviour in C++; the theorems below carry the
    hypotheses under which every index is in range;
  \<^item> a failed \<^verbatim>\<open>planck_assert\<close> throws; a function that may fail returns
    \<open>error + 'a\<close>, with \<open>Inl\<close> for the exception.
\<close>

datatype error = PlanckError string

subsection \<open>Positions and targets\<close>

text \<open>Class \<^verbatim>\<open>vec2\<close>; its members \<^verbatim>\<open>x\<close>, \<^verbatim>\<open>y\<close> are the fields \<open>vx\<close>, \<open>vy\<close>.\<close>

record vec2 =
  vx :: real
  vy :: real

definition dsq :: "vec2 \<Rightarrow> vec2 \<Rightarrow> real" where
  "dsq a b = (vx a - vx b) * (vx a - vx b) + (vy a - vy b) * (vy a - vy b)"

text \<open>Class \<^verbatim>\<open>Target\<close>; the member \<^verbatim>\<open>id\<close> is the field \<open>ident\<close>.\<close>

record Target =
  pos :: vec2
  time :: real
  pri :: int
  ident :: int

definition nfiber :: nat where "nfiber = 3 * 57 * 14"
definition rmax :: real where "rmax = 4.75"
definition r_kernel :: real where "r_kernel = 4.75"
definition dotdist :: real where "dotdist = 1.375"
definition colldist :: real where "colldist = 2"

subsection \<open>Rotation and projection onto the focal plane\<close>

text \<open>
  \<^verbatim>\<open>void rotate (vec2 &pos, double sa, double ca)\<close>, here \<open>rotate_vec\<close>: the new position
  is returned.
\<close>

definition rotate_vec :: "vec2 \<Rightarrow> real \<Rightarrow> real \<Rightarrow> vec2" where
  "rotate_vec p sa ca = \<lparr>vx = ca * vx p - sa * vy p, vy = sa * vx p + ca * vy p\<rparr>"

text \<open>Class \<^verbatim>\<open>pointing\<close> of the Healpix support library: colatitude and longitude.\<close>

record pointing =
  theta :: real
  phi :: real

definition degr2rad :: real where "degr2rad = pi / 180"

definition radec2ptg :: "real \<Rightarrow> real \<Rightarrow> pointing" where
  "radec2ptg ra dec = \<lparr>theta = (90 - dec) * degr2rad, phi = ra * degr2rad\<rparr>"

text \<open>
  \<^verbatim>\<open>targetToPFI\<close>. The three-dimensional part of the loop body (the basis \<^verbatim>\<open>x\<close>, \<^verbatim>\<open>y\<close>,
  \<^verbatim>\<open>z\<close> of the line of sight, the projections \<^verbatim>\<open>xp\<close>, \<^verbatim>\<open>yp\<close> and the two \<^verbatim>\<open>atan2\<close> in
  degrees) is built on \<^verbatim>\<open>vec3\<close> and \<^verbatim>\<open>pointing\<close>, whose code is outside the file. It is
  the parameter \<open>tangent\<close>: \<open>tangent los p\<close> is the pair the source stores in \<^verbatim>\<open>pnew\<close>
  for the line of sight \<open>los\<close> and the direction \<open>p\<close> of the target. Everything after
  that, the call of \<^verbatim>\<open>rotate\<close> and the polynomial, is the code of the file.
\<close>

definition targetToPFI ::
  "(pointing \<Rightarrow> pointing \<Rightarrow> vec2) \<Rightarrow> Target list \<Rightarrow> pointing \<Rightarrow> real \<Rightarrow> Target list" where
  "targetToPFI tangent tgt los psi =
     (let cpsi = cos psi; spsi = sin psi;
          a0 = 0; a1 = - 320; a2 = - 13.7; a3 = - 7.45
      in map (\<lambda>t.
           let pnew = rotate_vec (tangent los (radec2ptg (vx (pos t)) (vy (pos t)))) cpsi spsi;
               rsq = vx pnew * vx pnew + vy pnew * vy pnew
           in t\<lparr>pos := \<lparr>vx = (a3 * rsq * rsq + a2 * rsq + a1) * vx pnew + a0,
                        vy = (- a3 * rsq * rsq - a2 * rsq - a1) * vy pnew + a0\<rparr>\<rparr>) tgt)"


subsection \<open>Fiber geometry\<close>

text \<open>
  \<^verbatim>\<open>id2fiberpos\<close> and \<^verbatim>\<open>id2dotpos\<close>. The argument is an \<^verbatim>\<open>int\<close>; \<^verbatim>\<open>/\<close> on \<^verbatim>\<open>int\<close>
  truncates, which is \<open>sdiv\<close>, and \<^verbatim>\<open>&\<close> is \<open>AND\<close>. The source reuses the variable
  \<^verbatim>\<open>id\<close> for the remainder, here \<open>id1\<close>.
\<close>

definition id2fiberpos :: "int \<Rightarrow> vec2" where
  "id2fiberpos id0 =
     (let field = id0 sdiv (57 * 14);
          id1 = id0 - field * 57 * 14;
          module = id1 sdiv 57;
          cobra = id1 - module * 57;
          vspace = sqrt 0.75;
          res = \<lparr>vx = - vspace * (1 + real_of_int (2 * module) + real_of_int (cobra AND 1)),
                 vy = 0.5 + real_of_int module - 0.5 * real_of_int cobra\<rparr>;
          res = (if field = 1 then rotate_vec res (- vspace) (- 0.5) else res);
          res = (if field = 2 then rotate_vec res vspace (- 0.5) else res)
      in \<lparr>vx = vx res * 8, vy = vy res * 8\<rparr>)"

definition id2dotpos :: "int \<Rightarrow> vec2" where
  "id2dotpos id0 = (let res = id2fiberpos id0 in res\<lparr>vy := vy res + 1.19\<rparr>)"

subsection \<open>The raster of positions\<close>

text \<open>
  Class \<^verbatim>\<open>fpraster\<close>; the member \<^verbatim>\<open>m\<close> is the field \<open>r_m\<close>.
\<close>

record fpraster =
  r_x0 :: real
  r_y0 :: real
  r_x1 :: real
  r_y1 :: real
  r_idx :: real
  r_idy :: real
  r_nx :: nat
  r_ny :: nat
  r_data :: "nat list list"
  r_loc :: "vec2 list"

text \<open>
  The conversion \<^verbatim>\<open>int(v)\<close> of a \<^verbatim>\<open>double\<close>, here \<open>double_to_int\<close>. An \<^verbatim>\<open>int\<close> has 32
  bits. The value is truncated towards zero; when the truncated value is an \<^verbatim>\<open>int\<close>,
  it is the result. Otherwise the conversion is undefined in C++, and the model returns
  what the conversion instruction of x86-64 (\<^verbatim>\<open>cvttsd2si\<close>) returns then, the least
  \<^verbatim>\<open>int\<close>, \<open>- 2 ^ 31\<close>.
\<close>

definition double_to_int :: "real \<Rightarrow> int" where
  "double_to_int v =
     (let t = (if 0 \<le> v then \<lfloor>v\<rfloor> else \<lceil>v\<rceil>)
      in if - (2 ^ 31) \<le> t \<and> t < 2 ^ 31 then t else - (2 ^ 31))"

text \<open>
  \<open>int32 n\<close> is the \<^verbatim>\<open>int\<close> that has the low 32 bits of \<open>n\<close>: the conversion
  \<^verbatim>\<open>int(nx)\<close> of a \<^verbatim>\<open>size_t\<close>, and the value of \<^verbatim>\<open>int(nx)-1\<close> on a machine whose
  subtraction wraps around.
\<close>

definition int32 :: "int \<Rightarrow> int" where
  "int32 n = (n + 2 ^ 31) mod 2 ^ 32 - 2 ^ 31"

text \<open>
  \<^verbatim>\<open>indexx\<close>, \<^verbatim>\<open>indexy\<close> and \<^verbatim>\<open>index\<close>. The argument of \<^verbatim>\<open>size_t(\<dots>)\<close> is not negative.
  The sum in \<^verbatim>\<open>index\<close> is formed in \<^verbatim>\<open>size_t\<close>, of 64 bits.
\<close>

definition indexx :: "fpraster \<Rightarrow> real \<Rightarrow> nat" where
  "indexx r xa =
     nat (max 0 (min (int32 (int32 (int (r_nx r)) - 1))
                     (double_to_int ((xa - r_x0 r) * r_idx r))))"

definition indexy :: "fpraster \<Rightarrow> real \<Rightarrow> nat" where
  "indexy r ya =
     nat (max 0 (min (int32 (int32 (int (r_ny r)) - 1))
                     (double_to_int ((ya - r_y0 r) * r_idy r))))"

definition index :: "fpraster \<Rightarrow> vec2 \<Rightarrow> nat" where
  "index r p = (indexx r (vx p) + r_nx r * indexy r (vy p)) mod 2 ^ 64"

text \<open>
  The constructor \<^verbatim>\<open>fpraster\<close>, with \<open>loc0\<close>, \<open>nx0\<close>, \<open>ny0\<close> for its parameters. The first loop computes the bounding
  box, in the state \<open>(x0, y0, x1, y1)\<close>; the last loop sorts the indices into the cells.
  The constant \<^verbatim>\<open>1e-9\<close> is written \<open>1 / 10 ^ 9\<close>. The vector \<^verbatim>\<open>data\<close> has \<^verbatim>\<open>nx*ny\<close>
  entries, a product in \<^verbatim>\<open>size_t\<close>.
\<close>

definition mk_fpraster :: "vec2 list \<Rightarrow> nat \<Rightarrow> nat \<Rightarrow> error + fpraster" where
  "mk_fpraster loc0 nx0 ny0 =
     (if \<not> (nx0 > 0 \<and> ny0 > 0) then Inl (PlanckError ''bad array sizes'')
      else if \<not> length loc0 > 0 then Inl (PlanckError ''input array too small'')
      else
        let (x0, y0, x1, y1) =
              fold (\<lambda>i (x0, y0, x1, y1).
                     (min x0 (vx (loc0 ! i)), min y0 (vy (loc0 ! i)),
                      max x1 (vx (loc0 ! i)), max y1 (vy (loc0 ! i))))
                [1..<length loc0]
                (vx (loc0 ! 0), vy (loc0 ! 0), vx (loc0 ! 0), vy (loc0 ! 0));
            x1 = (if x0 = x1 then x1 + 1 / 10 ^ 9 else x1);
            y1 = (if y0 = y1 then y1 + 1 / 10 ^ 9 else y1);
            r = \<lparr>r_x0 = x0, r_y0 = y0, r_x1 = x1, r_y1 = y1,
                 r_idx = real nx0 / (x1 - x0), r_idy = real ny0 / (y1 - y0),
                 r_nx = nx0, r_ny = ny0, r_data = replicate (nx0 * ny0 mod 2 ^ 64) [], r_loc = loc0\<rparr>
        in Inr (r\<lparr>r_data :=
                  fold (\<lambda>i d. d[index r (loc0 ! i) := d ! index r (loc0 ! i) @ [i]])
                    [0..<length loc0] (r_data r)\<rparr>))"

text \<open>
  \<^verbatim>\<open>query\<close> and \<^verbatim>\<open>anyIn\<close>. The three nested loops visit the rows \<open>j0, \<dots>, j1\<close>, in each
  row the cells \<open>i0, \<dots>, i1\<close>, and in each cell its entries in their order; \<^verbatim>\<open>query\<close>
  appends the entries that pass the test, \<^verbatim>\<open>anyIn\<close> returns at the first one. The
  subscript \<^verbatim>\<open>i+nx*j\<close> is formed in \<^verbatim>\<open>size_t\<close>.
\<close>

definition query :: "fpraster \<Rightarrow> vec2 \<Rightarrow> real \<Rightarrow> nat list" where
  "query r center rad =
     (if vx center < r_x0 r - rad \<or> vx center > r_x1 r + rad
         \<or> vy center < r_y0 r - rad \<or> vy center > r_y1 r + rad
      then []
      else
        let rsq = rad * rad;
            i0 = indexx r (vx center - rad); i1 = indexx r (vx center + rad);
            j0 = indexy r (vy center - rad); j1 = indexy r (vy center + rad)
        in concat (map (\<lambda>j.
             concat (map (\<lambda>i.
               filter (\<lambda>k. dsq center (r_loc r ! k) \<le> rsq) (r_data r ! ((i + r_nx r * j) mod 2 ^ 64)))
               [i0..<Suc i1]))
             [j0..<Suc j1]))"

definition anyIn :: "fpraster \<Rightarrow> vec2 \<Rightarrow> real \<Rightarrow> bool" where
  "anyIn r center rad =
     (if vx center < r_x0 r - rad \<or> vx center > r_x1 r + rad
         \<or> vy center < r_y0 r - rad \<or> vy center > r_y1 r + rad
      then False
      else
        let rsq = rad * rad;
            i0 = indexx r (vx center - rad); i1 = indexx r (vx center + rad);
            j0 = indexy r (vy center - rad); j1 = indexy r (vy center + rad)
        in list_ex (\<lambda>j.
             list_ex (\<lambda>i.
               list_ex (\<lambda>k. dsq center (r_loc r ! k) \<le> rsq) (r_data r ! ((i + r_nx r * j) mod 2 ^ 64)))
               [i0..<Suc i1])
             [j0..<Suc j1])"

definition tgt2raster :: "Target list \<Rightarrow> nat \<Rightarrow> nat \<Rightarrow> error + fpraster" where
  "tgt2raster tgt nx0 ny0 = mk_fpraster (map pos tgt) nx0 ny0"

subsection \<open>The mappings between fibers and targets\<close>

text \<open>
  \<^verbatim>\<open>stripout\<close>. \<^verbatim>\<open>std::remove\<close> moves the entries other than \<^verbatim>\<open>val\<close> to the front,
  and \<^verbatim>\<open>erase\<close> deletes the entry at the iterator it is given. When \<^verbatim>\<open>val\<close> occurs once,
  the vector is left without it, one entry shorter. When \<^verbatim>\<open>val\<close> does not occur the
  call erases at \<^verbatim>\<open>end()\<close>, which is undefined, and when it occurs more than once the
  entries behind the new end are unspecified. The model removes every occurrence and
  reports both of these cases by the assertion, whose comment in the source reads
  "Assert that exactly one value was removed".
\<close>

definition stripout :: "nat list \<Rightarrow> nat \<Rightarrow> error + nat list" where
  "stripout v val =
     (let s1 = length v; v' = removeAll val v
      in if length v' + 1 = s1 then Inr v' else Inl (PlanckError ''oops''))"

text \<open>A loop whose body may throw: the first exception ends it.\<close>

fun fold_err :: "('a \<Rightarrow> 's \<Rightarrow> error + 's) \<Rightarrow> 'a list \<Rightarrow> 's \<Rightarrow> error + 's" where
  "fold_err f [] s = Inr s"
| "fold_err f (a # as) s = (case f a s of Inl e \<Rightarrow> Inl e | Inr s' \<Rightarrow> fold_err f as s')"

text \<open>\<open>strip_at m k val\<close> is the call \<^verbatim>\<open>stripout(m[k], val)\<close> on an entry of a mapping.\<close>

definition strip_at :: "nat list list \<Rightarrow> nat \<Rightarrow> nat \<Rightarrow> error + nat list list" where
  "strip_at m k val = (case stripout (m ! k) val of Inl e \<Rightarrow> Inl e | Inr v \<Rightarrow> Inr (m[k := v]))"

text \<open>\<^verbatim>\<open>calcMappings\<close>: the pair (\<^verbatim>\<open>f2t\<close>, \<^verbatim>\<open>t2f\<close>) is returned.\<close>

definition calcMappings :: "Target list \<Rightarrow> fpraster \<Rightarrow> nat list list \<times> nat list list" where
  "calcMappings tgt raster =
     (let f2t = map (\<lambda>i.
                  let fp = id2fiberpos (int i); dp = id2dotpos (int i);
                      tmp = query raster fp rmax
                  in filter (\<lambda>j. dsq dp (pos (tgt ! j)) \<ge> dotdist * dotdist) tmp)
                [0..<nfiber];
          t2f = fold (\<lambda>i t2f. fold (\<lambda>t t2f. t2f[t := t2f ! t @ [i]]) (f2t ! i) t2f)
                  [0..<length f2t] (replicate (length tgt) [])
      in (f2t, t2f))"

text \<open>\<^verbatim>\<open>cleanup\<close>: the new pair (\<^verbatim>\<open>f2t\<close>, \<^verbatim>\<open>t2f\<close>) is returned.\<close>

definition cleanup ::
  "Target list \<Rightarrow> fpraster \<Rightarrow> nat list list \<Rightarrow> nat list list \<Rightarrow> nat \<Rightarrow> nat
   \<Rightarrow> error + nat list list \<times> nat list list" where
  "cleanup tgt raster f2t t2f fiber itgt =
     (case fold_err (\<lambda>curtgt t2f. strip_at t2f curtgt fiber) (f2t ! fiber) t2f of
        Inl e \<Rightarrow> Inl e
      | Inr t2f1 \<Rightarrow>
          let f2t1 = f2t[fiber := []];
              tmp = query raster (pos (tgt ! itgt)) colldist
          in fold_err (\<lambda>i (f2t, t2f).
               case fold_err (\<lambda>j f2t. strip_at f2t j i) (t2f ! i) f2t of
                 Inl e \<Rightarrow> Inl e
               | Inr f2t' \<Rightarrow> Inr (f2t', t2f[i := []]))
               tmp (f2t1, t2f1))"

subsection \<open>Choosing a target within a fiber\<close>

text \<open>
  \<^verbatim>\<open>maxpri_in_fiber\<close>. The loop state is the pair (\<^verbatim>\<open>idx\<close>, \<^verbatim>\<open>maxpri\<close>); the loop
  variable \<^verbatim>\<open>j\<close> runs from 1. The test reads \<^verbatim>\<open>f2t[fiber][idx]\<close>, as the source does.
  The returned \<^verbatim>\<open>int\<close> is the target index, kept as a natural number.
\<close>

definition maxpri_in_fiber :: "nat \<Rightarrow> Target list \<Rightarrow> nat list list \<Rightarrow> error + nat" where
  "maxpri_in_fiber fiber tgt f2t =
     (if f2t ! fiber = [] then Inl (PlanckError ''searching in empty fiber'')
      else
        let st = fold (\<lambda>j (idx, maxpri).
                   if pri (tgt ! (f2t ! fiber ! idx)) < maxpri
                   then (j, pri (tgt ! (f2t ! fiber ! idx)))
                   else (idx, maxpri))
                 [1..<length (f2t ! fiber)]
                 (0, pri (tgt ! (f2t ! fiber ! 0)))
        in Inr (f2t ! fiber ! fst st))"

subsection \<open>The driver: exposure time and the update of the targets\<close>

text \<open>
  \<^verbatim>\<open>strip\<close>: the new content of \<^verbatim>\<open>tgt\<close> is returned. The constant \<^verbatim>\<open>1e-7\<close> is
  written \<open>1 / 10 ^ 7\<close>.
\<close>

definition strip :: "Target list \<Rightarrow> nat list \<Rightarrow> real \<Rightarrow> Target list" where
  "strip tgt remove tm =
     (let obs = fold (\<lambda>r obs. obs[r := True]) remove (replicate (length tgt) False)
      in fold (\<lambda>i t2.
            if \<not> obs ! i then t2 @ [tgt ! i]
            else if time (tgt ! i) > tm + 1 / 10 ^ 7
                 then t2 @ [(tgt ! i)\<lparr>time := time (tgt ! i) - tm\<rparr>]
                 else t2)
          [0..<length obs] [])"

text \<open>
  The body of the \<^verbatim>\<open>while (true)\<close> loop of \<^verbatim>\<open>subprocess\<close>, from the return of
  \<^verbatim>\<open>optimal_exposure\<close> on; \<open>tidmax\<close> is what that call returned. The output to
  \<^verbatim>\<open>cout\<close> and \<^verbatim>\<open>fout\<close> has no effect on the state and is left out, but for the
  \<^verbatim>\<open>cnt++\<close> in it. \<open>exposure_time\<close> is the local \<^verbatim>\<open>time\<close> after its loop. The result
  is \<open>Inl st'\<close> when the iteration leaves the loop at one of the two \<^verbatim>\<open>break\<close>
  statements, in the state \<open>st'\<close>, and \<open>Inr st'\<close> when it runs to its end, where \<open>st'\<close> is
  the state in which the next iteration starts.
\<close>

definition exposure_time :: "Target list \<Rightarrow> nat list \<Rightarrow> real" where
  "exposure_time tgt1 tidmax =
     fold (\<lambda>i tm. if time (tgt1 ! i) < tm then time (tgt1 ! i) else tm)
       tidmax (time (tgt1 ! (tidmax ! 0)))"

record driver_state =
  d_tgt1 :: "Target list"
  d_acc :: real
  d_time2 :: real
  d_cnt :: nat

definition subprocess_iter ::
  "real \<Rightarrow> real \<Rightarrow> driver_state \<Rightarrow> nat list \<Rightarrow> driver_state + driver_state" where
  "subprocess_iter ttime fract st tidmax =
     (if tidmax = [] then Inl st
      else
        let tm = exposure_time (d_tgt1 st) tidmax;
            time2 = d_time2 st + tm;
            acc = d_acc st + real (length tidmax) * tm;
            st1 = st\<lparr>d_acc := acc, d_time2 := time2, d_cnt := d_cnt st + 1\<rparr>
        in if acc / ttime > fract then Inl st1
           else Inr (st1\<lparr>d_tgt1 := strip (d_tgt1 st) tidmax tm\<rparr>))"

subsection \<open>Invariants\<close>

text \<open>
  What the constructor of the raster establishes when the cell counts are positive and
  below \<open>2 ^ 31\<close>: positive inverse cell sizes, which are the cell counts divided by the
  sides of the bounding box; a bounding box that holds every position and whose lower
  left corner is reached in each coordinate; and in every cell the indices of the
  positions that \<^verbatim>\<open>index\<close> sends there, in increasing order.
\<close>

definition raster_inv :: "fpraster \<Rightarrow> bool" where
  "raster_inv r \<longleftrightarrow>
     0 < r_nx r \<and> r_nx r < 2 ^ 31 \<and> 0 < r_ny r \<and> r_ny r < 2 ^ 31
     \<and> 0 < r_idx r \<and> 0 < r_idy r
     \<and> (r_x1 r - r_x0 r) * r_idx r = real (r_nx r)
     \<and> (r_y1 r - r_y0 r) * r_idy r = real (r_ny r)
     \<and> length (r_data r) = r_nx r * r_ny r
     \<and> (\<forall>k<length (r_loc r).
           r_x0 r \<le> vx (r_loc r ! k) \<and> vx (r_loc r ! k) \<le> r_x1 r
           \<and> r_y0 r \<le> vy (r_loc r ! k) \<and> vy (r_loc r ! k) \<le> r_y1 r)
     \<and> (\<exists>k<length (r_loc r). vx (r_loc r ! k) = r_x0 r)
     \<and> (\<exists>k<length (r_loc r). vy (r_loc r ! k) = r_y0 r)
     \<and> (\<forall>c<r_nx r * r_ny r.
           r_data r ! c = filter (\<lambda>k. index r (r_loc r ! k) = c) [0..<length (r_loc r)])"

subsection \<open>The priority queue\<close>

text \<open>
  Class \<^verbatim>\<open>pqueue\<close>. The members \<^verbatim>\<open>pri\<close> and \<^verbatim>\<open>pos\<close> of \<^verbatim>\<open>node_t\<close> are the fields
  \<open>node_pri\<close> and \<open>node_pos\<close>. The comparison \<^verbatim>\<open>comp\<close> of the template is the parameter \<open>cmp\<close>
  of every function. \<^verbatim>\<open>i>>1\<close> is \<open>i div 2\<close> and \<^verbatim>\<open>i<<1\<close> is \<open>2 * i\<close>.
\<close>

record 'a node_t =
  node_pri :: 'a
  node_pos :: nat

record 'a pqueue =
  nodes :: "'a node_t list"
  idx :: "nat list"

text \<open>
  \<open>place q i v\<close> is the pair of statements \<^verbatim>\<open>idx[i] = v; nodes[idx[i]].pos = i;\<close> that
  both sift functions run in their loop and after it.
\<close>

definition place :: "'a pqueue \<Rightarrow> nat \<Rightarrow> nat \<Rightarrow> 'a pqueue" where
  "place q i v =
     (let idx' = (idx q)[i := v];
          nodes' = (nodes q)[idx' ! i := (nodes q ! (idx' ! i))\<lparr>node_pos := i\<rparr>]
      in \<lparr>nodes = nodes', idx = idx'\<rparr>)"

text \<open>The loop of \<^verbatim>\<open>sift_up\<close>; it returns the queue and the final \<^verbatim>\<open>i\<close>.\<close>

function sift_up_loop :: "('a \<Rightarrow> 'a \<Rightarrow> bool) \<Rightarrow> 'a \<Rightarrow> 'a pqueue \<Rightarrow> nat \<Rightarrow> 'a pqueue \<times> nat" where
  "sift_up_loop cmp moving_pri q i =
     (if i > 1 \<and> cmp (node_pri (nodes q ! (idx q ! (i div 2)))) moving_pri
      then sift_up_loop cmp moving_pri (place q i (idx q ! (i div 2))) (i div 2)
      else (q, i))"
  by pat_completeness auto
termination
  by (relation "measure (\<lambda>(cmp, moving_pri, q, i). i)") auto

definition sift_up :: "('a \<Rightarrow> 'a \<Rightarrow> bool) \<Rightarrow> 'a pqueue \<Rightarrow> nat \<Rightarrow> 'a pqueue" where
  "sift_up cmp q i =
     (let moving_node = idx q ! i;
          moving_pri = node_pri (nodes q ! moving_node);
          (q', i') = sift_up_loop cmp moving_pri q i
      in place q' i' moving_node)"

definition maxchild :: "('a \<Rightarrow> 'a \<Rightarrow> bool) \<Rightarrow> 'a pqueue \<Rightarrow> nat \<Rightarrow> nat" where
  "maxchild cmp q i =
     (let child_node = 2 * i
      in if child_node \<ge> length (idx q) then 0
         else if child_node + 1 < length (idx q)
                 \<and> cmp (node_pri (nodes q ! (idx q ! child_node)))
                         (node_pri (nodes q ! (idx q ! (child_node + 1))))
              then child_node + 1
              else child_node)"

text \<open>The loop of \<^verbatim>\<open>sift_down\<close>; it returns the queue and the final \<^verbatim>\<open>i\<close>.\<close>

function sift_down_loop :: "('a \<Rightarrow> 'a \<Rightarrow> bool) \<Rightarrow> 'a \<Rightarrow> 'a pqueue \<Rightarrow> nat \<Rightarrow> 'a pqueue \<times> nat" where
  "sift_down_loop cmp moving_pri q i =
     (if maxchild cmp q i \<noteq> 0
         \<and> cmp moving_pri (node_pri (nodes q ! (idx q ! maxchild cmp q i)))
      then sift_down_loop cmp moving_pri (place q i (idx q ! maxchild cmp q i)) (maxchild cmp q i)
      else (q, i))"
  by pat_completeness auto
termination
proof (relation "measure (\<lambda>(cmp, moving_pri, q, i). length (idx q) - i)")
  show "wf (measure (\<lambda>(cmp, moving_pri, q, i). length (idx q) - i))" by simp
next
  fix cmp :: "'a \<Rightarrow> 'a \<Rightarrow> bool" and moving_pri :: 'a and q :: "'a pqueue" and i :: nat
  assume "maxchild cmp q i \<noteq> 0
          \<and> cmp moving_pri (node_pri (nodes q ! (idx q ! maxchild cmp q i)))"
  then have c: "maxchild cmp q i \<noteq> 0" by simp
  then have "i < maxchild cmp q i \<and> maxchild cmp q i < length (idx q)"
    by (auto simp: maxchild_def Let_def split: if_splits)
  then show "((cmp, moving_pri, place q i (idx q ! maxchild cmp q i), maxchild cmp q i),
              (cmp, moving_pri, q, i))
             \<in> measure (\<lambda>(cmp, moving_pri, q, i). length (idx q) - i)"
    by (auto simp: place_def Let_def)
qed

definition sift_down :: "('a \<Rightarrow> 'a \<Rightarrow> bool) \<Rightarrow> 'a pqueue \<Rightarrow> nat \<Rightarrow> 'a pqueue" where
  "sift_down cmp q i =
     (let moving_node = idx q ! i;
          moving_pri = node_pri (nodes q ! moving_node);
          (q', i') = sift_down_loop cmp moving_pri q i
      in place q' i' moving_node)"

text \<open>\<^verbatim>\<open>heapify\<close>: \<^verbatim>\<open>i\<close> runs from \<^verbatim>\<open>idx.size()>>1\<close> down to 1.\<close>

definition heapify :: "('a \<Rightarrow> 'a \<Rightarrow> bool) \<Rightarrow> 'a pqueue \<Rightarrow> 'a pqueue" where
  "heapify cmp q =
     (let startnode = length (idx q) div 2
      in fold (\<lambda>i q. sift_down cmp q i) (rev [1..<Suc startnode]) q)"

text \<open>The constructor \<^verbatim>\<open>pqueue (const vector<T> &pri)\<close>, with \<open>pv\<close> for its parameter.\<close>

definition mk_pqueue :: "('a \<Rightarrow> 'a \<Rightarrow> bool) \<Rightarrow> 'a list \<Rightarrow> 'a pqueue" where
  "mk_pqueue cmp pv =
     heapify cmp
       \<lparr>nodes = map (\<lambda>i. \<lparr>node_pri = pv ! i, node_pos = i + 1\<rparr>) [0..<length pv],
        idx = 0 # map (\<lambda>i. i) [0..<length pv]\<rparr>"

definition set_priority :: "('a \<Rightarrow> 'a \<Rightarrow> bool) \<Rightarrow> 'a pqueue \<Rightarrow> 'a \<Rightarrow> nat \<Rightarrow> 'a pqueue" where
  "set_priority cmp q new_pri pos0 =
     (let old_pri = node_pri (nodes q ! pos0);
          q1 = q\<lparr>nodes := (nodes q)[pos0 := (nodes q ! pos0)\<lparr>node_pri := new_pri\<rparr>]\<rparr>;
          posn = node_pos (nodes q1 ! pos0)
      in if cmp old_pri new_pri then sift_up cmp q1 posn else sift_down cmp q1 posn)"

text \<open>The accessors; \<^verbatim>\<open>top\<close> is \<open>top_pq\<close>.\<close>

definition priority :: "'a pqueue \<Rightarrow> nat \<Rightarrow> 'a" where
  "priority q pos0 = node_pri (nodes q ! pos0)"

definition top_priority :: "'a pqueue \<Rightarrow> 'a" where
  "top_priority q = node_pri (nodes q ! (idx q ! 1))"

definition top_pq :: "'a pqueue \<Rightarrow> nat" where
  "top_pq q = idx q ! 1"

subsection \<open>The priorities of the targets\<close>

definition kernelfunc :: "real \<Rightarrow> real" where
  "kernelfunc rsq = max 0 (r_kernel * r_kernel - rsq)"

text \<open>Struct \<^verbatim>\<open>pq_entry\<close>; its member \<^verbatim>\<open>pri\<close> is the field \<open>entry_pri\<close>, its \<^verbatim>\<open>operator<\<close> is \<open>pq_less\<close>.\<close>

record pq_entry =
  prox :: real
  entry_pri :: int

definition pq_less :: "pq_entry \<Rightarrow> pq_entry \<Rightarrow> bool" where
  "pq_less a b = (if entry_pri a \<noteq> entry_pri b then entry_pri a > entry_pri b else prox a < prox b)"

text \<open>\<open>add_prox pv k d\<close> is the statement \<^verbatim>\<open>pri[k].prox += d\<close>.\<close>

definition add_prox :: "pq_entry list \<Rightarrow> nat \<Rightarrow> real \<Rightarrow> pq_entry list" where
  "add_prox pv k d = pv[k := (pv ! k)\<lparr>prox := prox (pv ! k) + d\<rparr>]"

definition calc_pri :: "Target list \<Rightarrow> nat list list \<Rightarrow> fpraster \<Rightarrow> pq_entry pqueue" where
  "calc_pri tgt t2f raster =
     (let pv = replicate (length tgt) \<lparr>prox = 0, entry_pri = 0\<rparr>;
          pv = fold (\<lambda>i pv.
                 if length (t2f ! i) > 0
                 then fold (\<lambda>j pv.
                        let pv = (if i = j
                                  then add_prox pv i (time (tgt ! i) * time (tgt ! i) * kernelfunc 0)
                                  else pv)
                        in if i < j
                           then let tmp = time (tgt ! i) * time (tgt ! j)
                                            * kernelfunc (dsq (pos (tgt ! i)) (pos (tgt ! j)))
                                in add_prox (add_prox pv i tmp) j tmp
                           else pv)
                      (query raster (pos (tgt ! i)) r_kernel) pv
                 else pv)
               [0..<length tgt] pv;
          pv = fold (\<lambda>i pv. pv[i := (pv ! i)\<lparr>entry_pri := pri (tgt ! i)\<rparr>]) [0..<length tgt] pv
      in mk_pqueue pq_less pv)"

definition fix_priority ::
  "Target list \<Rightarrow> nat list list \<Rightarrow> fpraster \<Rightarrow> nat \<Rightarrow> pq_entry pqueue \<Rightarrow> pq_entry pqueue" where
  "fix_priority tgt t2f raster itgt pq =
     fold (\<lambda>j pq.
        if t2f ! j \<noteq> [] \<or> prox (priority pq j) \<noteq> 0
        then let tpri = priority pq j;
                 tpri = tpri\<lparr>prox := prox tpri - time (tgt ! j) * time (tgt ! itgt)
                                        * kernelfunc (dsq (pos (tgt ! itgt)) (pos (tgt ! j)))\<rparr>
             in set_priority pq_less pq tpri j
        else pq)
       (query raster (pos (tgt ! itgt)) r_kernel) pq"

subsection \<open>The three assigners\<close>

text \<open>
  The classes derived from \<^verbatim>\<open>FiberAssigner\<close>. An assignment is the pair (\<^verbatim>\<open>tid\<close>,
  \<^verbatim>\<open>fid\<close>). The result of \<^verbatim>\<open>assign\<close> is \<open>None\<close> when a \<^verbatim>\<open>while (true)\<close> loop does not
  end, \<open>Some (Inl e)\<close> when an assertion fails, and \<open>Some (Inr (tid, fid))\<close> otherwise.
\<close>

datatype assigner = NaiveAssigner | DrainingAssigner | NewAssigner

type_synonym assignment = "nat list \<times> nat list"

text \<open>The body of the loop of \<^verbatim>\<open>NaiveAssigner::assign\<close>, and the method.\<close>

definition naive_step ::
  "Target list \<Rightarrow> fpraster \<Rightarrow> nat
   \<Rightarrow> nat list \<times> nat list \<times> nat list list \<times> nat list list
   \<Rightarrow> error + nat list \<times> nat list \<times> nat list list \<times> nat list list" where
  "naive_step tgt raster fiber st =
     (case st of (tid, fid, f2t, t2f) \<Rightarrow>
        if f2t ! fiber = [] then Inr (tid, fid, f2t, t2f)
        else (case maxpri_in_fiber fiber tgt f2t of
                Inl e \<Rightarrow> Inl e
              | Inr itgt \<Rightarrow>
                  (case cleanup tgt raster f2t t2f fiber itgt of
                     Inl e \<Rightarrow> Inl e
                   | Inr (f2t', t2f') \<Rightarrow> Inr (tid @ [itgt], fid @ [fiber], f2t', t2f'))))"

definition naive_assign :: "Target list \<Rightarrow> (error + assignment) option" where
  "naive_assign tgt =
     (case tgt2raster tgt 100 100 of
        Inl e \<Rightarrow> Some (Inl e)
      | Inr raster \<Rightarrow>
          let (f2t, t2f) = calcMappings tgt raster
          in (case fold_err (naive_step tgt raster) [0..<length f2t] ([], [], f2t, t2f) of
                Inl e \<Rightarrow> Some (Inl e)
              | Inr (tid, fid, f2t', t2f') \<Rightarrow> Some (Inr (tid, fid))))"

text \<open>
  A \<^verbatim>\<open>while (true)\<close> loop. Its body is a function of the loop state that returns
  \<open>Inl r\<close> where the source leaves the loop with the result \<open>r\<close> (a \<^verbatim>\<open>break\<close>, or an
  exception), and \<open>Inr s'\<close> where it goes on with the state \<open>s'\<close>. A loop that never
  leaves has the value \<open>None\<close>.
\<close>

partial_function (option) while_true :: "('s \<Rightarrow> 'r + 's) \<Rightarrow> 's \<Rightarrow> 'r option" where
  "while_true body s = (case body s of Inl r \<Rightarrow> Some r | Inr s' \<Rightarrow> while_true body s')"

text \<open>
  \<^verbatim>\<open>DrainingAssigner::assign\<close>. \<open>draining_search\<close> is the inner \<^verbatim>\<open>for\<close> loop, in the
  state (\<^verbatim>\<open>fiber\<close>, \<^verbatim>\<open>mintgt\<close>); \<open>draining_body\<close> is the body of the \<^verbatim>\<open>while (true)\<close>
  loop, on the state (\<^verbatim>\<open>tid\<close>, \<^verbatim>\<open>fid\<close>, \<^verbatim>\<open>f2t\<close>, \<^verbatim>\<open>t2f\<close>).
\<close>

definition draining_search :: "nat list list \<Rightarrow> nat \<Rightarrow> int \<times> nat" where
  "draining_search f2t maxtgt =
     fold (\<lambda>i (fiber, mintgt).
        if length (f2t ! i) < mintgt \<and> length (f2t ! i) > 0
        then (int i, length (f2t ! i)) else (fiber, mintgt))
       [0..<length f2t] (- 1, maxtgt + 1)"

definition draining_body ::
  "Target list \<Rightarrow> fpraster \<Rightarrow> nat
   \<Rightarrow> nat list \<times> nat list \<times> nat list list \<times> nat list list
   \<Rightarrow> (error + assignment) + nat list \<times> nat list \<times> nat list list \<times> nat list list" where
  "draining_body tgt raster maxtgt st =
     (case st of (tid, fid, f2t, t2f) \<Rightarrow>
        let fiber = fst (draining_search f2t maxtgt)
        in if fiber = - 1 then Inl (Inr (tid, fid))
           else (case maxpri_in_fiber (nat fiber) tgt f2t of
                   Inl e \<Rightarrow> Inl (Inl e)
                 | Inr itgt \<Rightarrow>
                     (case cleanup tgt raster f2t t2f (nat fiber) itgt of
                        Inl e \<Rightarrow> Inl (Inl e)
                      | Inr (f2t', t2f') \<Rightarrow>
                          Inr (tid @ [itgt], fid @ [nat fiber], f2t', t2f'))))"

definition draining_assign :: "Target list \<Rightarrow> (error + assignment) option" where
  "draining_assign tgt =
     (case tgt2raster tgt 100 100 of
        Inl e \<Rightarrow> Some (Inl e)
      | Inr raster \<Rightarrow>
          let (f2t, t2f) = calcMappings tgt raster;
              maxtgt = fold (\<lambda>f maxtgt. max maxtgt (length f)) f2t 0
          in while_true (draining_body tgt raster maxtgt) ([], [], f2t, t2f))"

text \<open>
  \<^verbatim>\<open>NewAssigner::assign\<close>. \<open>new_search\<close> is the \<^verbatim>\<open>for\<close> loop that chooses \<^verbatim>\<open>ifib\<close>, in
  the state (\<^verbatim>\<open>ifib\<close>, \<^verbatim>\<open>mintgt\<close>); \<open>new_body\<close> is the body of the \<^verbatim>\<open>while (true)\<close> loop, on
  the state (\<^verbatim>\<open>tid\<close>, \<^verbatim>\<open>fid\<close>, \<^verbatim>\<open>f2t\<close>, \<^verbatim>\<open>t2f\<close>, \<^verbatim>\<open>pri\<close>). \<^verbatim>\<open>1<<30\<close> is \<open>2 ^ 30\<close>.
\<close>

definition new_search :: "nat list list \<Rightarrow> nat list list \<Rightarrow> nat \<Rightarrow> nat \<times> nat" where
  "new_search f2t t2f itgt =
     fold (\<lambda>i (ifib, mintgt).
        if length (f2t ! (t2f ! itgt ! i)) < mintgt
        then (i, length (f2t ! (t2f ! itgt ! i))) else (ifib, mintgt))
       [1..<length (t2f ! itgt)] (0, length (f2t ! (t2f ! itgt ! 0)))"

definition new_body ::
  "Target list \<Rightarrow> fpraster
   \<Rightarrow> nat list \<times> nat list \<times> nat list list \<times> nat list list \<times> pq_entry pqueue
   \<Rightarrow> (error + assignment)
      + nat list \<times> nat list \<times> nat list list \<times> nat list list \<times> pq_entry pqueue" where
  "new_body tgt raster st =
     (case st of (tid, fid, f2t, t2f, pq) \<Rightarrow>
        if entry_pri (top_priority pq) = 2 ^ 30 then Inl (Inr (tid, fid))
        else
          let itgt = top_pq pq
          in if t2f ! itgt = []
             then Inr (tid, fid, f2t, t2f,
                       set_priority pq_less pq \<lparr>prox = 0, entry_pri = 2 ^ 30\<rparr> itgt)
             else
               let ifib = fst (new_search f2t t2f itgt);
                   fiber = t2f ! itgt ! ifib
               in (case cleanup tgt raster f2t t2f fiber itgt of
                     Inl e \<Rightarrow> Inl (Inl e)
                   | Inr (f2t', t2f') \<Rightarrow>
                       Inr (tid @ [itgt], fid @ [fiber], f2t', t2f',
                            fix_priority tgt t2f' raster itgt pq)))"

definition new_assign :: "Target list \<Rightarrow> (error + assignment) option" where
  "new_assign tgt =
     (case tgt2raster tgt 100 100 of
        Inl e \<Rightarrow> Some (Inl e)
      | Inr raster \<Rightarrow>
          let (f2t, t2f) = calcMappings tgt raster;
              pq = calc_pri tgt t2f raster
          in while_true (new_body tgt raster) ([], [], f2t, t2f, pq))"

text \<open>The virtual method \<^verbatim>\<open>assign\<close>.\<close>

fun assign :: "assigner \<Rightarrow> Target list \<Rightarrow> (error + assignment) option" where
  "assign NaiveAssigner tgt = naive_assign tgt"
| "assign DrainingAssigner tgt = draining_assign tgt"
| "assign NewAssigner tgt = new_assign tgt"

subsection \<open>One exposure\<close>

text \<open>
  \<^verbatim>\<open>select_observable\<close> and the active branch of \<^verbatim>\<open>single_exposure\<close>. The parameter
  \<^verbatim>\<open>elevation\<close> is ignored by the source and left out; the local \<^verbatim>\<open>idx\<close> is \<open>sel\<close>.
\<close>

definition select_observable :: "Target list \<Rightarrow> real \<Rightarrow> error + nat list" where
  "select_observable tgt safety =
     (let fpos = map (\<lambda>i. id2fiberpos (int i)) [0..<nfiber]
      in (case mk_fpraster fpos 100 100 of
            Inl e \<Rightarrow> Inl e
          | Inr raster \<Rightarrow>
              Inr (filter (\<lambda>i. anyIn raster (pos (tgt ! i)) (rmax + safety)) [0..<length tgt])))"

definition single_exposure ::
  "(pointing \<Rightarrow> pointing \<Rightarrow> vec2) \<Rightarrow> Target list \<Rightarrow> pointing \<Rightarrow> real
   \<Rightarrow> (Target list \<Rightarrow> (error + assignment) option) \<Rightarrow> (error + assignment) option" where
  "single_exposure tangent tgt center posang ass =
     (let tgt1 = targetToPFI tangent tgt center posang
      in (case select_observable tgt1 r_kernel of
            Inl e \<Rightarrow> Some (Inl e)
          | Inr sel \<Rightarrow>
              let tgt2 = map (\<lambda>i. tgt1 ! i) sel
              in (case (if tgt2 \<noteq> [] then ass tgt2 else Some (Inr ([], []))) of
                    None \<Rightarrow> None
                  | Some (Inl e) \<Rightarrow> Some (Inl e)
                  | Some (Inr (tid, fid)) \<Rightarrow> Some (Inr (map (\<lambda>t. sel ! t) tid, fid)))))"

subsection \<open>The rotation as the specification states it\<close>

text \<open>
  The rotation of a pair by the angle \<open>psi\<close> in the words of the specification: the pair
  \<open>(u, v)\<close> goes to \<open>(cos psi * u - sin psi * v, sin psi * u + cos psi * v)\<close>.
\<close>

definition rotate_by_angle :: "real \<Rightarrow> vec2 \<Rightarrow> vec2" where
  "rotate_by_angle psi p =
     \<lparr>vx = cos psi * vx p - sin psi * vy p, vy = sin psi * vx p + cos psi * vy p\<rparr>"

text \<open>
  The consistency of a pair of mappings: \<open>A\<close> has \<open>na\<close> rows with entries below \<open>nb\<close>,
  \<open>B\<close> has \<open>nb\<close> rows with entries below \<open>na\<close>, no row repeats an entry, and \<open>b\<close> is in
  row \<open>a\<close> of \<open>A\<close> exactly when \<open>a\<close> is in row \<open>b\<close> of \<open>B\<close>. For \<^verbatim>\<open>f2t\<close> and \<^verbatim>\<open>t2f\<close> this is
  \<open>bij_inv nfiber (length tgt) f2t t2f\<close>.
\<close>

definition bij_inv :: "nat \<Rightarrow> nat \<Rightarrow> nat list list \<Rightarrow> nat list list \<Rightarrow> bool" where
  "bij_inv na nb A B \<longleftrightarrow>
     length A = na \<and> length B = nb
     \<and> (\<forall>a<na. distinct (A ! a) \<and> (\<forall>b\<in>set (A ! a). b < nb))
     \<and> (\<forall>b<nb. distinct (B ! b) \<and> (\<forall>a\<in>set (B ! b). a < na))
     \<and> (\<forall>a<na. \<forall>b<nb. b \<in> set (A ! a) \<longleftrightarrow> a \<in> set (B ! b))"

declare sift_up_loop.simps [simp del] sift_down_loop.simps [simp del]

text \<open>
  The invariants of the priority queue. \<open>prs q\<close> lists the priorities of the entries
  and \<open>key q k\<close> is the priority at position \<open>k\<close> of the heap. \<open>pq_wf\<close>: the heap holds
  entries of the queue, and each entry at a position of the heap records that position.
  \<open>heap_from cmp lo\<close>: no child is above its parent, for the parents from \<open>lo\<close> on.
  \<open>strict_weak\<close>: what the proofs need of the comparison.
\<close>

definition prs :: "'a pqueue \<Rightarrow> 'a list" where
  "prs q = map node_pri (nodes q)"

definition key :: "'a pqueue \<Rightarrow> nat \<Rightarrow> 'a" where
  "key q k = prs q ! (idx q ! k)"

definition pq_wf :: "'a pqueue \<Rightarrow> bool" where
  "pq_wf q \<longleftrightarrow>
     length (idx q) = length (nodes q) + 1
     \<and> (\<forall>k. 1 \<le> k \<and> k \<le> length (nodes q) \<longrightarrow>
           idx q ! k < length (nodes q) \<and> node_pos (nodes q ! (idx q ! k)) = k)"

definition heap_from :: "('a \<Rightarrow> 'a \<Rightarrow> bool) \<Rightarrow> nat \<Rightarrow> 'a pqueue \<Rightarrow> bool" where
  "heap_from cmp lo q \<longleftrightarrow>
     (\<forall>k. 2 \<le> k \<and> k \<le> length (nodes q) \<and> lo \<le> k div 2 \<longrightarrow>
          \<not> cmp (key q (k div 2)) (key q k))"

definition strict_weak :: "('a \<Rightarrow> 'a \<Rightarrow> bool) \<Rightarrow> bool" where
  "strict_weak cmp \<longleftrightarrow>
     (\<forall>a b. cmp a b \<longrightarrow> \<not> cmp b a)
     \<and> (\<forall>a b c. cmp a b \<longrightarrow> cmp b c \<longrightarrow> cmp a c)
     \<and> (\<forall>a b c. \<not> cmp a b \<longrightarrow> \<not> cmp b c \<longrightarrow> \<not> cmp a c)"

text \<open>
  The order in a queue with a hole filled. \<open>down_inv cmp lo i\<close>, for \<^verbatim>\<open>sift_down\<close>: the
  heap order holds from \<open>lo\<close> on except between \<open>i\<close> and its children, and the parent
  of \<open>i\<close> is not below the children of \<open>i\<close>. \<open>up_inv cmp i\<close>, for \<^verbatim>\<open>sift_up\<close>: the heap
  order holds except between \<open>i\<close> and its parent, and the parent of \<open>i\<close> is not below
  the children of \<open>i\<close>.
\<close>

definition down_inv :: "('a \<Rightarrow> 'a \<Rightarrow> bool) \<Rightarrow> nat \<Rightarrow> nat \<Rightarrow> 'a pqueue \<Rightarrow> bool" where
  "down_inv cmp lo i q \<longleftrightarrow>
     (\<forall>k. 2 \<le> k \<and> k \<le> length (nodes q) \<and> lo \<le> k div 2 \<and> k div 2 \<noteq> i \<longrightarrow>
          \<not> cmp (key q (k div 2)) (key q k))
     \<and> (\<forall>k. 2 \<le> k \<and> k \<le> length (nodes q) \<and> k div 2 = i \<and> lo \<le> i div 2 \<longrightarrow>
          \<not> cmp (key q (i div 2)) (key q k))"

definition up_inv :: "('a \<Rightarrow> 'a \<Rightarrow> bool) \<Rightarrow> nat \<Rightarrow> 'a pqueue \<Rightarrow> bool" where
  "up_inv cmp i q \<longleftrightarrow>
     (\<forall>k. 2 \<le> k \<and> k \<le> length (nodes q) \<and> k \<noteq> i \<longrightarrow>
          \<not> cmp (key q (k div 2)) (key q k))
     \<and> (\<forall>k. 2 \<le> k \<and> k \<le> length (nodes q) \<and> k div 2 = i \<and> 2 \<le> i \<longrightarrow>
          \<not> cmp (key q (i div 2)) (key q k))"

section \<open>Properties\<close>

subsection \<open>Target selection within a fiber\<close>

lemma maxpri_loop_fixed:
  "fold (\<lambda>j (idx, maxpri).
       if pri (tgt ! (l ! idx)) < maxpri then (j, pri (tgt ! (l ! idx))) else (idx, maxpri))
     js (0, pri (tgt ! (l ! 0))) = (0, pri (tgt ! (l ! 0)))"
  by (induction js) simp_all

lemma maxpri_in_fiber_first:
  "f2t ! fiber \<noteq> [] \<Longrightarrow> maxpri_in_fiber fiber tgt f2t = Inr (f2t ! fiber ! 0)"
  by (simp add: maxpri_in_fiber_def maxpri_loop_fixed)

text \<open>
  Claim C1. The routine is meant to return the target of \<open>F2T[f]\<close> with the smallest
  \<open>pri\<close>. Its test compares the candidate at \<^verbatim>\<open>idx\<close> with its own priority, so the
  first entry is returned whatever the priorities are: for two targets of priority 5
  and 3, both reachable by fiber 0, the routine returns target 0, and target 1 has the
  smaller \<open>pri\<close>.
\<close>

theorem maxpri_in_fiber_ignores_priorities:
  "maxpri_in_fiber 0
     [\<lparr>pos = \<lparr>vx = 0, vy = 0\<rparr>, time = 1, pri = 5, ident = 0\<rparr>,
      \<lparr>pos = \<lparr>vx = 1, vy = 0\<rparr>, time = 1, pri = 3, ident = 1\<rparr>]
     [[0, 1]] = Inr 0
   \<and> pri ([\<lparr>pos = \<lparr>vx = 0, vy = 0\<rparr>, time = 1, pri = 5, ident = 0\<rparr>,
           \<lparr>pos = \<lparr>vx = 1, vy = 0\<rparr>, time = 1, pri = 3, ident = 1\<rparr>] ! 1)
     < pri ([\<lparr>pos = \<lparr>vx = 0, vy = 0\<rparr>, time = 1, pri = 5, ident = 0\<rparr>,
             \<lparr>pos = \<lparr>vx = 1, vy = 0\<rparr>, time = 1, pri = 3, ident = 1\<rparr>] ! 0)"
  by (simp add: maxpri_in_fiber_def)

subsection \<open>The update of the targets after an exposure\<close>

lemma obs_fold_length: "length (fold (\<lambda>r obs. obs[r := True]) rs obs0) = length obs0"
  by (induction rs arbitrary: obs0) simp_all

lemma obs_fold_nth:
  "i < length obs0 \<Longrightarrow> fold (\<lambda>r obs. obs[r := True]) rs obs0 ! i = (obs0 ! i \<or> i \<in> set rs)"
proof (induction rs arbitrary: obs0)
  case Nil
  then show ?case by simp
next
  case (Cons r rs)
  have "fold (\<lambda>r obs. obs[r := True]) rs (obs0[r := True]) ! i
        = ((obs0[r := True]) ! i \<or> i \<in> set rs)"
    using Cons.prems by (intro Cons.IH) simp
  then show ?case using Cons.prems by (cases "i = r") simp_all
qed

lemma strip_loop:
  "fold (\<lambda>i t2. if \<not> obs ! i then t2 @ [tgt ! i] else if c i then t2 @ [h i] else t2) xs acc
   = acc @ concat (map (\<lambda>i. if \<not> obs ! i then [tgt ! i] else if c i then [h i] else []) xs)"
  by (induction xs arbitrary: acc) auto

lemma strip_concat:
  "strip tgt remove tm =
     concat (map (\<lambda>i. if i \<notin> set remove then [tgt ! i]
                       else if time (tgt ! i) > tm + 1 / 10 ^ 7
                            then [(tgt ! i)\<lparr>time := time (tgt ! i) - tm\<rparr>] else [])
       [0..<length tgt])"
proof -
  let ?obs = "fold (\<lambda>r obs. obs[r := True]) remove (replicate (length tgt) False)"
  have "\<And>i. i < length tgt \<Longrightarrow> ?obs ! i = (i \<in> set remove)"
    by (simp add: obs_fold_nth)
  then have eq: "map (\<lambda>i. if \<not> ?obs ! i then [tgt ! i]
                       else if time (tgt ! i) > tm + 1 / 10 ^ 7
                            then [(tgt ! i)\<lparr>time := time (tgt ! i) - tm\<rparr>] else []) [0..<length tgt]
        = map (\<lambda>i. if i \<notin> set remove then [tgt ! i]
                       else if time (tgt ! i) > tm + 1 / 10 ^ 7
                            then [(tgt ! i)\<lparr>time := time (tgt ! i) - tm\<rparr>] else []) [0..<length tgt]"
    by (intro map_cong refl) simp
  show ?thesis
    by (simp only: strip_def Let_def strip_loop obs_fold_length length_replicate append_Nil eq)
qed

lemma concat_map_keep:
  "concat (map (\<lambda>i. if P i then [f i] else []) xs) = map f (filter P xs)"
  by (induction xs) simp_all

lemma exposure_fold_Min:
  "fold (\<lambda>i tm. if f i < tm then f i else tm) xs (t0::real) = Min (insert t0 (f ` set xs))"
proof (induction xs arbitrary: t0)
  case Nil
  then show ?case by simp
next
  case (Cons a xs)
  have "Min (insert (min (f a) t0) (f ` set xs)) = Min (insert t0 (insert (f a) (f ` set xs)))"
    by (cases "set xs = {}") (simp_all add: min.commute min.left_commute min.assoc)
  then show ?case using Cons.IH [of "if f a < t0 then f a else t0"]
    by (simp add: min_def not_less split: if_splits) (metis insert_commute min.absorb1 min_def)+
qed

lemma strip_map_filter:
  "strip tgt remove tm =
     map (\<lambda>i. if i \<in> set remove then (tgt ! i)\<lparr>time := time (tgt ! i) - tm\<rparr> else tgt ! i)
       (filter (\<lambda>i. i \<notin> set remove \<or> tm + 1 / 10 ^ 7 < time (tgt ! i)) [0..<length tgt])"
proof -
  have "strip tgt remove tm =
     concat (map (\<lambda>i. if i \<notin> set remove \<or> tm + 1 / 10 ^ 7 < time (tgt ! i)
                       then [if i \<in> set remove then (tgt ! i)\<lparr>time := time (tgt ! i) - tm\<rparr> else tgt ! i]
                       else [])
       [0..<length tgt])"
    unfolding strip_concat by (rule arg_cong [where f = concat], rule map_cong) auto
  then show ?thesis by (simp only: concat_map_keep)
qed

text \<open>
  Claim C10. \<^verbatim>\<open>strip\<close> returns the surviving targets in the order of their indices:
  there is a strictly increasing list \<open>ks\<close> of the indices that survive (every index
  that is not listed in \<open>remove\<close>, and the listed ones with enough time left), and the
  result is the list of the targets at \<open>ks\<close>, where a target that is not listed is the
  very record of the input (identifier, priority, time and position), and a listed one
  differs from it in its time only.
\<close>

theorem strip_frame_and_order:
  assumes "\<forall>r\<in>set remove. r < length tgt"
  shows "\<exists>ks. sorted_wrt (<) ks
         \<and> set ks = {i. i < length tgt \<and> (i \<notin> set remove \<or> tm + 1 / 10 ^ 7 < time (tgt ! i))}
         \<and> strip tgt remove tm =
             map (\<lambda>i. if i \<in> set remove then (tgt ! i)\<lparr>time := time (tgt ! i) - tm\<rparr> else tgt ! i) ks"
proof (intro exI conjI)
  let ?ks = "filter (\<lambda>i. i \<notin> set remove \<or> tm + 1 / 10 ^ 7 < time (tgt ! i)) [0..<length tgt]"
  show "sorted_wrt (<) ?ks" by (simp add: sorted_wrt_filter)
  show "set ?ks = {i. i < length tgt \<and> (i \<notin> set remove \<or> tm + 1 / 10 ^ 7 < time (tgt ! i))}"
    by auto
  show "strip tgt remove tm =
          map (\<lambda>i. if i \<in> set remove then (tgt ! i)\<lparr>time := time (tgt ! i) - tm\<rparr> else tgt ! i) ?ks"
    by (rule strip_map_filter)
qed

theorem strip_frame_and_order_witness:
  "\<exists>ks. sorted_wrt (<) ks
     \<and> set ks = {i. i < length [\<lparr>pos = \<lparr>vx = 0, vy = 0\<rparr>, time = 5, pri = 1, ident = 7\<rparr>,
                                  \<lparr>pos = \<lparr>vx = 1, vy = 2\<rparr>, time = 3, pri = 2, ident = 8\<rparr>]
                \<and> (i \<notin> set [1] \<or> 1 + 1 / 10 ^ 7
                     < time ([\<lparr>pos = \<lparr>vx = 0, vy = 0\<rparr>, time = 5, pri = 1, ident = 7\<rparr>,
                              \<lparr>pos = \<lparr>vx = 1, vy = 2\<rparr>, time = 3, pri = 2, ident = 8\<rparr>] ! i))}
     \<and> strip [\<lparr>pos = \<lparr>vx = 0, vy = 0\<rparr>, time = 5, pri = 1, ident = 7\<rparr>,
               \<lparr>pos = \<lparr>vx = 1, vy = 2\<rparr>, time = 3, pri = 2, ident = 8\<rparr>] [1] 1 =
         map (\<lambda>i. if i \<in> set [1]
                  then ([\<lparr>pos = \<lparr>vx = 0, vy = 0\<rparr>, time = 5, pri = 1, ident = 7\<rparr>,
                         \<lparr>pos = \<lparr>vx = 1, vy = 2\<rparr>, time = 3, pri = 2, ident = 8\<rparr>] ! i)
                       \<lparr>time := time ([\<lparr>pos = \<lparr>vx = 0, vy = 0\<rparr>, time = 5, pri = 1, ident = 7\<rparr>,
                         \<lparr>pos = \<lparr>vx = 1, vy = 2\<rparr>, time = 3, pri = 2, ident = 8\<rparr>] ! i) - 1\<rparr>
                  else [\<lparr>pos = \<lparr>vx = 0, vy = 0\<rparr>, time = 5, pri = 1, ident = 7\<rparr>,
                        \<lparr>pos = \<lparr>vx = 1, vy = 2\<rparr>, time = 3, pri = 2, ident = 8\<rparr>] ! i) ks"
  by (rule strip_frame_and_order) simp

lemma exposure_time_Min:
  assumes "tidmax \<noteq> []"
  shows "exposure_time tgt1 tidmax = Min ((\<lambda>i. time (tgt1 ! i)) ` set tidmax)"
proof -
  have "tidmax ! 0 \<in> set tidmax" using assms by simp
  then have "insert (time (tgt1 ! (tidmax ! 0))) ((\<lambda>i. time (tgt1 ! i)) ` set tidmax)
             = (\<lambda>i. time (tgt1 ! i)) ` set tidmax"
    by blast
  then show ?thesis by (simp add: exposure_time_def exposure_fold_Min)
qed

text \<open>
  Claim C9, as amended. Take an iteration of the driver whose exposure assigned the
  non-empty list \<open>tidmax\<close> of valid target indices, with a positive total time
  \<open>ttime\<close>. Its duration \<open>tau\<close> is the minimum of the remaining times of the assigned
  targets, and the accumulated time grows by \<open>tau\<close> for each of them. If the accumulated
  fraction then exceeds \<open>fract\<close>, the iteration leaves the loop and the target list is
  the one it started with: no time is decreased. Otherwise the next iteration starts
  with the list in which a target that was not assigned is kept as it is, and an
  assigned target is kept, with its time decreased by \<open>tau\<close>, if and only if its time
  exceeded \<open>tau + 1e-7\<close>; that is the test of the source, and over the reals it says that
  the decreased time exceeds \<^verbatim>\<open>1e-7\<close>.
\<close>

theorem subprocess_iter_decrements_unless_covered:
  assumes "tidmax \<noteq> []" and "\<forall>i\<in>set tidmax. i < length (d_tgt1 st)" and "0 < ttime"
  shows "subprocess_iter ttime fract st tidmax =
     (let tau = Min ((\<lambda>i. time (d_tgt1 st ! i)) ` set tidmax);
          acc = d_acc st + real (length tidmax) * tau
      in if acc / ttime > fract
         then Inl \<lparr>d_tgt1 = d_tgt1 st, d_acc = acc, d_time2 = d_time2 st + tau,
                   d_cnt = d_cnt st + 1\<rparr>
         else Inr \<lparr>d_tgt1 =
                     concat (map (\<lambda>i. if i \<in> set tidmax
                                       then if time (d_tgt1 st ! i) > tau + 1 / 10 ^ 7
                                            then [(d_tgt1 st ! i)\<lparr>time := time (d_tgt1 st ! i) - tau\<rparr>]
                                            else []
                                       else [d_tgt1 st ! i])
                               [0..<length (d_tgt1 st)]),
                   d_acc = acc, d_time2 = d_time2 st + tau, d_cnt = d_cnt st + 1\<rparr>)"
proof -
  have e: "exposure_time (d_tgt1 st) tidmax = Min ((\<lambda>i. time (d_tgt1 st ! i)) ` set tidmax)"
    using assms(1) by (rule exposure_time_Min)
  have s: "strip (d_tgt1 st) tidmax tm =
           concat (map (\<lambda>i. if i \<in> set tidmax
                             then if time (d_tgt1 st ! i) > tm + 1 / 10 ^ 7
                                  then [(d_tgt1 st ! i)\<lparr>time := time (d_tgt1 st ! i) - tm\<rparr>]
                                  else []
                             else [d_tgt1 st ! i])
                    [0..<length (d_tgt1 st)])" for tm
    unfolding strip_concat
    by (rule arg_cong [where f = concat], rule map_cong) auto
  show ?thesis
    using assms(1) by (simp add: subprocess_iter_def Let_def e s)
qed

theorem subprocess_iter_decrements_unless_covered_witness:
  "subprocess_iter 12 0.9
     \<lparr>d_tgt1 = [\<lparr>pos = \<lparr>vx = 0, vy = 0\<rparr>, time = 5, pri = 1, ident = 7\<rparr>,
                \<lparr>pos = \<lparr>vx = 1, vy = 2\<rparr>, time = 3, pri = 2, ident = 8\<rparr>,
                \<lparr>pos = \<lparr>vx = 9, vy = 9\<rparr>, time = 4, pri = 1, ident = 9\<rparr>],
      d_acc = 0, d_time2 = 0, d_cnt = 0\<rparr> [0, 1]
   = Inr \<lparr>d_tgt1 = [\<lparr>pos = \<lparr>vx = 0, vy = 0\<rparr>, time = 2, pri = 1, ident = 7\<rparr>,
                    \<lparr>pos = \<lparr>vx = 9, vy = 9\<rparr>, time = 4, pri = 1, ident = 9\<rparr>],
          d_acc = 6, d_time2 = 3, d_cnt = 1\<rparr>"
proof -
  let ?st = "\<lparr>d_tgt1 = [\<lparr>pos = \<lparr>vx = 0, vy = 0\<rparr>, time = 5, pri = 1, ident = 7\<rparr>,
                         \<lparr>pos = \<lparr>vx = 1, vy = 2\<rparr>, time = 3, pri = 2, ident = 8\<rparr>,
                         \<lparr>pos = \<lparr>vx = 9, vy = 9\<rparr>, time = 4, pri = 1, ident = 9\<rparr>],
              d_acc = 0, d_time2 = (0::real), d_cnt = 0\<rparr>"
  have h1: "[0, 1::nat] \<noteq> []" by simp
  have h2: "\<forall>i\<in>set [0, 1::nat]. i < length (d_tgt1 ?st)" by simp
  have h3: "0 < (12::real)" by simp
  show ?thesis
    unfolding subprocess_iter_decrements_unless_covered [OF h1 h2 h3]
    by (simp add: upt_rec)
qed

text \<open>
  The claim as stated fails. The three targets have 5, 3 and 4 seconds left, 12 in
  total; the exposure assigns the first two and lasts 3 seconds, which brings the
  accumulated fraction to \<open>6 / 12\<close>. With \<open>fract = 0.4\<close> the iteration leaves the loop at
  the second \<^verbatim>\<open>break\<close>, before \<^verbatim>\<open>strip\<close>: the two assigned targets keep their 5 and 3
  seconds.
\<close>

theorem subprocess_iter_break_keeps_times:
  "subprocess_iter 12 0.4
     \<lparr>d_tgt1 = [\<lparr>pos = \<lparr>vx = 0, vy = 0\<rparr>, time = 5, pri = 1, ident = 7\<rparr>,
                \<lparr>pos = \<lparr>vx = 1, vy = 2\<rparr>, time = 3, pri = 2, ident = 8\<rparr>,
                \<lparr>pos = \<lparr>vx = 9, vy = 9\<rparr>, time = 4, pri = 1, ident = 9\<rparr>],
      d_acc = 0, d_time2 = 0, d_cnt = 0\<rparr> [0, 1]
   = Inl \<lparr>d_tgt1 = [\<lparr>pos = \<lparr>vx = 0, vy = 0\<rparr>, time = 5, pri = 1, ident = 7\<rparr>,
                    \<lparr>pos = \<lparr>vx = 1, vy = 2\<rparr>, time = 3, pri = 2, ident = 8\<rparr>,
                    \<lparr>pos = \<lparr>vx = 9, vy = 9\<rparr>, time = 4, pri = 1, ident = 9\<rparr>],
          d_acc = 6, d_time2 = 3, d_cnt = 1\<rparr>
   \<and> exposure_time [\<lparr>pos = \<lparr>vx = 0, vy = 0\<rparr>, time = 5, pri = 1, ident = 7\<rparr>,
                    \<lparr>pos = \<lparr>vx = 1, vy = 2\<rparr>, time = 3, pri = 2, ident = 8\<rparr>,
                    \<lparr>pos = \<lparr>vx = 9, vy = 9\<rparr>, time = 4, pri = 1, ident = 9\<rparr>] [0, 1] = 3"
  by (simp add: subprocess_iter_def exposure_time_def Let_def)

subsection \<open>The raster\<close>

lemma double_to_int_bounds: "- (2 ^ 31) \<le> double_to_int v" "double_to_int v < 2 ^ 31"
  by (simp_all add: double_to_int_def Let_def)

lemma double_to_int_mono:
  assumes "v \<le> w" and "w < 2 ^ 31"
  shows "double_to_int v \<le> double_to_int w"
proof -
  define tv where "tv = (if 0 \<le> v then \<lfloor>v\<rfloor> else \<lceil>v\<rceil>)"
  define tw where "tw = (if 0 \<le> w then \<lfloor>w\<rfloor> else \<lceil>w\<rceil>)"
  have le: "tv \<le> tw"
    unfolding tv_def tw_def using assms(1)
    by (auto intro: floor_mono ceiling_mono simp: not_le)
       (meson ceiling_le_zero zero_le_floor less_imp_le order_trans)
  have "tw < 2 ^ 31"
  proof (cases "0 \<le> w")
    case True
    have "\<lfloor>w\<rfloor> < 2 ^ 31" using assms(2) by (simp add: floor_less_iff)
    then show ?thesis using True by (simp add: tw_def)
  next
    case False
    then have "\<lceil>w\<rceil> \<le> 0" by (simp add: ceiling_le_iff)
    then show ?thesis using False by (simp add: tw_def)
  qed
  then show ?thesis
    using le unfolding double_to_int_def Let_def tv_def [symmetric] tw_def [symmetric]
    by auto
qed

lemma double_to_int_nonpos: "v < 1 \<Longrightarrow> double_to_int v \<le> 0"
proof -
  assume v: "v < 1"
  have "(if 0 \<le> v then \<lfloor>v\<rfloor> else \<lceil>v\<rceil>) \<le> 0"
  proof (cases "0 \<le> v")
    case True
    have "\<lfloor>v\<rfloor> < 1" using v by (simp add: floor_less_iff)
    then show ?thesis using True by simp
  next
    case False
    then have "\<lceil>v\<rceil> \<le> 0" by (simp add: ceiling_le_iff)
    then show ?thesis using False by simp
  qed
  then show ?thesis by (auto simp: double_to_int_def Let_def)
qed


lemma int32_id: "- (2 ^ 31) \<le> n \<Longrightarrow> n < 2 ^ 31 \<Longrightarrow> int32 n = n"
  by (simp add: int32_def)

lemma int32_count: "0 < n \<Longrightarrow> n < 2 ^ 31 \<Longrightarrow> int32 (int32 (int n) - 1) = int n - 1"
proof -
  assume n: "0 < n" "n < 2 ^ 31"
  then have "int n < 2 ^ 31" by (metis of_nat_less_iff of_nat_numeral of_nat_power)
  with n(1) show ?thesis by (simp add: int32_id)
qed

lemma indexx_eq:
  "0 < r_nx r \<Longrightarrow> r_nx r < 2 ^ 31 \<Longrightarrow>
   indexx r a = nat (max 0 (min (int (r_nx r) - 1) (double_to_int ((a - r_x0 r) * r_idx r))))"
  by (simp add: indexx_def int32_count)

lemma indexy_eq:
  "0 < r_ny r \<Longrightarrow> r_ny r < 2 ^ 31 \<Longrightarrow>
   indexy r a = nat (max 0 (min (int (r_ny r) - 1) (double_to_int ((a - r_y0 r) * r_idy r))))"
  by (simp add: indexy_def int32_count)

lemma indexx_mono:
  assumes "0 \<le> r_idx r" "a \<le> b" "(b - r_x0 r) * r_idx r < 2 ^ 31"
  shows "indexx r a \<le> indexx r b"
proof -
  have "(a - r_x0 r) * r_idx r \<le> (b - r_x0 r) * r_idx r"
    using assms(1,2) by (intro mult_right_mono) simp_all
  then have "double_to_int ((a - r_x0 r) * r_idx r) \<le> double_to_int ((b - r_x0 r) * r_idx r)"
    using assms(3) by (rule double_to_int_mono)
  then show ?thesis unfolding indexx_def by simp
qed

lemma indexy_mono:
  assumes "0 \<le> r_idy r" "a \<le> b" "(b - r_y0 r) * r_idy r < 2 ^ 31"
  shows "indexy r a \<le> indexy r b"
proof -
  have "(a - r_y0 r) * r_idy r \<le> (b - r_y0 r) * r_idy r"
    using assms(1,2) by (intro mult_right_mono) simp_all
  then have "double_to_int ((a - r_y0 r) * r_idy r) \<le> double_to_int ((b - r_y0 r) * r_idy r)"
    using assms(3) by (rule double_to_int_mono)
  then show ?thesis unfolding indexy_def by simp
qed

lemma indexx_zero: "(a - r_x0 r) * r_idx r < 1 \<Longrightarrow> indexx r a = 0"
  using double_to_int_nonpos [of "(a - r_x0 r) * r_idx r"] by (simp add: indexx_def)

lemma indexy_zero: "(a - r_y0 r) * r_idy r < 1 \<Longrightarrow> indexy r a = 0"
  using double_to_int_nonpos [of "(a - r_y0 r) * r_idy r"] by (simp add: indexy_def)



lemma indexx_less: "0 < r_nx r \<Longrightarrow> r_nx r < 2 ^ 31 \<Longrightarrow> indexx r a < r_nx r"
  by (simp add: indexx_eq)

lemma indexy_less: "0 < r_ny r \<Longrightarrow> r_ny r < 2 ^ 31 \<Longrightarrow> indexy r a < r_ny r"
  by (simp add: indexy_eq)

lemma cell_less:
  assumes "i < nx" "j < ny"
  shows "i + nx * j < nx * (ny::nat)"
proof -
  have "i + nx * j < nx + nx * j" using assms by simp
  also have "\<dots> = nx * Suc j" by simp
  also have "\<dots> \<le> nx * ny" using assms by (intro mult_le_mono2) simp
  finally show ?thesis .
qed

lemma count_product: "nx < 2 ^ 31 \<Longrightarrow> ny < 2 ^ 31 \<Longrightarrow> nx * ny < 2 ^ 64" for nx ny :: nat
proof -
  assume "nx < 2 ^ 31" "ny < 2 ^ 31"
  then have "nx * ny \<le> 2 ^ 31 * (2 ^ 31 :: nat)" by (intro mult_mono) simp_all
  also have "\<dots> < 2 ^ 64" by simp
  finally show ?thesis .
qed

lemma cell_mod:
  fixes nx ny :: nat
  assumes "i < nx" "j < ny" "nx < 2 ^ 31" "ny < 2 ^ 31"
  shows "(i + nx * j) mod 2 ^ 64 = i + nx * j"
  using cell_less [OF assms(1,2)] count_product [OF assms(3,4)] by simp

lemma index_eq:
  assumes "0 < r_nx r" "r_nx r < 2 ^ 31" "0 < r_ny r" "r_ny r < 2 ^ 31"
  shows "index r p = indexx r (vx p) + r_nx r * indexy r (vy p)"
  unfolding index_def
  by (rule cell_mod [where ny = "r_ny r"]) (use assms in \<open>simp_all add: indexx_less indexy_less\<close>)

lemma index_less:
  assumes "0 < r_nx r" "r_nx r < 2 ^ 31" "0 < r_ny r" "r_ny r < 2 ^ 31"
  shows "index r p < r_nx r * r_ny r"
  unfolding index_eq [OF assms]
  by (intro cell_less indexx_less indexy_less assms)

lemma bucket_fold:
  "\<forall>i\<in>set is. f i < length d0 \<Longrightarrow>
   length (fold (\<lambda>i d. d[f i := d ! f i @ [i]]) is d0) = length d0
   \<and> (\<forall>c<length d0. fold (\<lambda>i d. d[f i := d ! f i @ [i]]) is d0 ! c
                      = d0 ! c @ filter (\<lambda>i. f i = c) is)"
proof (induction "is" arbitrary: d0)
  case Nil
  then show ?case by simp
next
  case (Cons a "is")
  let ?d1 = "d0[f a := d0 ! f a @ [a]]"
  have "\<forall>i\<in>set is. f i < length ?d1" using Cons.prems by simp
  from Cons.IH [OF this] show ?case using Cons.prems
    by (auto simp: nth_list_update)
qed

lemma bbox_fold:
  "fold (\<lambda>i (x0, y0, x1, y1).
           (min x0 (vx (l ! i)), min y0 (vy (l ! i)), max x1 (vx (l ! i)), max y1 (vy (l ! i))))
      is (a, b, c, d) = (a', b', c', d') \<Longrightarrow>
   a' \<le> a \<and> b' \<le> b \<and> c \<le> c' \<and> d \<le> d'
   \<and> (\<forall>i\<in>set is. a' \<le> vx (l ! i) \<and> b' \<le> vy (l ! i) \<and> vx (l ! i) \<le> c' \<and> vy (l ! i) \<le> d')
   \<and> (a' = a \<or> (\<exists>i\<in>set is. a' = vx (l ! i)))
   \<and> (b' = b \<or> (\<exists>i\<in>set is. b' = vy (l ! i)))"
proof (induction "is" arbitrary: a b c d)
  case Nil
  then show ?case by simp
next
  case (Cons i "is")
  from Cons.prems have
    "fold (\<lambda>i (x0, y0, x1, y1).
           (min x0 (vx (l ! i)), min y0 (vy (l ! i)), max x1 (vx (l ! i)), max y1 (vy (l ! i))))
      is (min a (vx (l ! i)), min b (vy (l ! i)), max c (vx (l ! i)), max d (vy (l ! i)))
     = (a', b', c', d')" by simp
  from Cons.IH [OF this] show ?case by (auto simp: min_def split: if_splits)
qed

lemma index_data_update [simp]: "index (r\<lparr>r_data := d\<rparr>) p = index r p"
  by (simp add: index_def indexx_def indexy_def)

lemma mk_fpraster_Inr:
  assumes "0 < nx0" "0 < ny0" "loc0 \<noteq> []"
  shows "\<exists>r. mk_fpraster loc0 nx0 ny0 = Inr r"
  using assms by (simp add: mk_fpraster_def Let_def split: prod.splits)

lemma mk_fpraster_fields:
  assumes "mk_fpraster loc0 nx0 ny0 = Inr r"
  shows "r_loc r = loc0" "r_nx r = nx0" "r_ny r = ny0" "0 < nx0" "0 < ny0" "loc0 \<noteq> []"
  using assms by (auto simp: mk_fpraster_def Let_def split: prod.splits if_splits)

lemma mk_fpraster_inv:
  assumes "mk_fpraster loc0 nx0 ny0 = Inr r" and nx: "nx0 < 2 ^ 31" and ny: "ny0 < 2 ^ 31"
  shows "raster_inv r"
proof -
  note f = mk_fpraster_fields [OF assms(1)]
  let ?n = "length loc0"
  obtain a b c d where bb:
    "fold (\<lambda>i (x0, y0, x1, y1).
           (min x0 (vx (loc0 ! i)), min y0 (vy (loc0 ! i)),
            max x1 (vx (loc0 ! i)), max y1 (vy (loc0 ! i))))
       [1..<?n] (vx (loc0 ! 0), vy (loc0 ! 0), vx (loc0 ! 0), vy (loc0 ! 0)) = (a, b, c, d)"
    by (rule prod_cases4)
  define x1 where "x1 = (if a = c then c + 1 / 10 ^ 9 else c)"
  define y1 where "y1 = (if b = d then d + 1 / 10 ^ 9 else d)"
  define r0 where "r0 = \<lparr>r_x0 = a, r_y0 = b, r_x1 = x1, r_y1 = y1,
                 r_idx = real nx0 / (x1 - a), r_idy = real ny0 / (y1 - b),
                 r_nx = nx0, r_ny = ny0, r_data = replicate (nx0 * ny0 mod 2 ^ 64) [],
                 r_loc = loc0\<rparr>"
  have r: "r = r0\<lparr>r_data := fold (\<lambda>i d. d[index r0 (loc0 ! i) := d ! index r0 (loc0 ! i) @ [i]])
                    [0..<?n] (r_data r0)\<rparr>"
    using assms(1) f(4,5,6) bb by (simp add: mk_fpraster_def Let_def r0_def x1_def y1_def)
  have n0: "0 < ?n" using f(6) by simp
  have box0: "a \<le> vx (loc0 ! 0)" "b \<le> vy (loc0 ! 0)" "vx (loc0 ! 0) \<le> c" "vy (loc0 ! 0) \<le> d"
    and boxi: "\<forall>i\<in>set [1..<?n]. a \<le> vx (loc0 ! i) \<and> b \<le> vy (loc0 ! i)
                 \<and> vx (loc0 ! i) \<le> c \<and> vy (loc0 ! i) \<le> d"
    and mina: "a = vx (loc0 ! 0) \<or> (\<exists>i\<in>set [1..<?n]. a = vx (loc0 ! i))"
    and minb: "b = vy (loc0 ! 0) \<or> (\<exists>i\<in>set [1..<?n]. b = vy (loc0 ! i))"
    using bbox_fold [OF bb] by simp_all
  have box: "a \<le> vx (loc0 ! k) \<and> b \<le> vy (loc0 ! k) \<and> vx (loc0 ! k) \<le> c \<and> vy (loc0 ! k) \<le> d"
    if "k < ?n" for k
  proof (cases "k = 0")
    case True
    then show ?thesis using box0 by simp
  next
    case False
    then have "k \<in> set [1..<?n]" using that by simp
    then show ?thesis using boxi by blast
  qed
  have ata: "\<exists>k<?n. vx (loc0 ! k) = a" using mina n0 by auto
  have atb: "\<exists>k<?n. vy (loc0 ! k) = b" using minb n0 by auto
  have cx: "c \<le> x1" and dy: "d \<le> y1" by (simp_all add: x1_def y1_def)
  have "a \<le> c" "b \<le> d" using box0 by linarith+
  then have lt: "a < x1" "b < y1" by (simp_all add: x1_def y1_def)
  have idx_pos: "0 < r_idx r0" "0 < r_idy r0"
    using lt f(4,5) by (simp_all add: r0_def)
  have prod: "nx0 * ny0 mod 2 ^ 64 = nx0 * ny0"
    using count_product [OF nx ny] by simp
  have "index r0 p < r_nx r0 * r_ny r0" for p
    using f(4,5) nx ny by (intro index_less) (simp_all add: r0_def)
  then have in_range: "\<forall>i\<in>set [0..<?n]. index r0 (loc0 ! i) < length (r_data r0)"
    using prod by (simp add: r0_def)
  note bk = bucket_fold [OF in_range]
  show ?thesis
    unfolding raster_inv_def
  proof (intro conjI allI impI)
    show "0 < r_nx r" "0 < r_ny r" using f by simp_all
    show "r_nx r < 2 ^ 31" "r_ny r < 2 ^ 31" using f nx ny by simp_all
    show "0 < r_idx r" "0 < r_idy r" using idx_pos by (simp_all add: r)
    show "(r_x1 r - r_x0 r) * r_idx r = real (r_nx r)" using lt by (simp add: r r0_def)
    show "(r_y1 r - r_y0 r) * r_idy r = real (r_ny r)" using lt by (simp add: r r0_def)
    show "length (r_data r) = r_nx r * r_ny r" using bk prod by (simp add: r r0_def)
    show "\<exists>k<length (r_loc r). vx (r_loc r ! k) = r_x0 r" using ata by (simp add: r r0_def)
    show "\<exists>k<length (r_loc r). vy (r_loc r ! k) = r_y0 r" using atb by (simp add: r r0_def)
  next
    fix k assume "k < length (r_loc r)"
    then have k: "k < ?n" by (simp add: f)
    from box [OF k] cx dy
    show "r_x0 r \<le> vx (r_loc r ! k)" "vx (r_loc r ! k) \<le> r_x1 r"
         "r_y0 r \<le> vy (r_loc r ! k)" "vy (r_loc r ! k) \<le> r_y1 r"
      by (simp_all add: r r0_def)
  next
    fix c' assume "c' < r_nx r * r_ny r"
    then have "c' < length (r_data r0)" using prod by (simp add: r r0_def)
    with bk have "r_data r ! c' = r_data r0 ! c' @ filter (\<lambda>i. index r0 (loc0 ! i) = c') [0..<?n]"
      by (simp add: r)
    moreover have "r_data r0 ! c' = []" using \<open>c' < length (r_data r0)\<close> by (simp add: r0_def)
    moreover have "r_loc r = loc0" by (rule f)
    moreover have "index r = index r0" by (rule ext) (simp add: r)
    ultimately show "r_data r ! c' = filter (\<lambda>k. index r (r_loc r ! k) = c') [0..<length (r_loc r)]"
      by simp
  qed
qed

lemma raster_invD:
  assumes "raster_inv r"
  shows "0 < r_nx r" "r_nx r < 2 ^ 31" "0 < r_ny r" "r_ny r < 2 ^ 31"
    "0 < r_idx r" "0 < r_idy r"
    "(r_x1 r - r_x0 r) * r_idx r = real (r_nx r)"
    "(r_y1 r - r_y0 r) * r_idy r = real (r_ny r)"
    "\<And>k. k < length (r_loc r) \<Longrightarrow>
        r_x0 r \<le> vx (r_loc r ! k) \<and> vx (r_loc r ! k) \<le> r_x1 r
        \<and> r_y0 r \<le> vy (r_loc r ! k) \<and> vy (r_loc r ! k) \<le> r_y1 r"
    "\<And>c. c < r_nx r * r_ny r \<Longrightarrow>
        r_data r ! c = filter (\<lambda>k. index r (r_loc r ! k) = c) [0..<length (r_loc r)]"
    "\<exists>k<length (r_loc r). vx (r_loc r ! k) = r_x0 r"
    "\<exists>k<length (r_loc r). vy (r_loc r ! k) = r_y0 r"
  using assms unfolding raster_inv_def by blast+

lemma dsq_within_x:
  assumes "dsq c p \<le> rad * rad" "0 \<le> rad"
  shows "vx c - rad \<le> vx p \<and> vx p \<le> vx c + rad"
proof -
  have "(vx c - vx p) * (vx c - vx p) \<le> rad * rad"
    using zero_le_square [of "vy c - vy p"] assms(1) unfolding dsq_def by linarith
  then have "(vx c - vx p)\<^sup>2 \<le> rad\<^sup>2"
    by (simp add: power2_eq_square)
  then have "\<bar>vx c - vx p\<bar> \<le> \<bar>rad\<bar>" by (simp only: abs_le_square_iff)
  with assms(2) show ?thesis by (simp add: abs_le_iff)
qed

lemma dsq_within_y:
  assumes "dsq c p \<le> rad * rad" "0 \<le> rad"
  shows "vy c - rad \<le> vy p \<and> vy p \<le> vy c + rad"
proof -
  have "(vy c - vy p) * (vy c - vy p) \<le> rad * rad"
    using zero_le_square [of "vx c - vx p"] assms(1) unfolding dsq_def by linarith
  then have "(vy c - vy p)\<^sup>2 \<le> rad\<^sup>2"
    by (simp add: power2_eq_square)
  then have "\<bar>vy c - vy p\<bar> \<le> \<bar>rad\<bar>" by (simp only: abs_le_square_iff)
  with assms(2) show ?thesis by (simp add: abs_le_iff)
qed

text \<open>The cells that \<^verbatim>\<open>query\<close> visits, and what it takes from each.\<close>

lemma query_cells:
  assumes inv: "raster_inv r"
    and inside: "\<not> (vx c < r_x0 r - rad \<or> vx c > r_x1 r + rad
                    \<or> vy c < r_y0 r - rad \<or> vy c > r_y1 r + rad)"
  shows "query r c rad =
           concat (map (\<lambda>j. concat (map (\<lambda>i.
               filter (\<lambda>k. dsq c (r_loc r ! k) \<le> rad * rad)
                 (filter (\<lambda>k. index r (r_loc r ! k) = i + r_nx r * j) [0..<length (r_loc r)]))
             [indexx r (vx c - rad)..<Suc (indexx r (vx c + rad))]))
           [indexy r (vy c - rad)..<Suc (indexy r (vy c + rad))])"
proof -
  note f = raster_invD [OF inv]
  let ?ib = "indexx r (vx c + rad)" and ?jb = "indexy r (vy c + rad)"
  have cell: "r_data r ! ((i + r_nx r * j) mod 2 ^ 64)
              = filter (\<lambda>k. index r (r_loc r ! k) = i + r_nx r * j) [0..<length (r_loc r)]"
    if "i < Suc ?ib" "j < Suc ?jb" for i j
  proof -
    have i: "i < r_nx r" using that(1) indexx_less [OF f(1,2), of "vx c + rad"] by linarith
    have j: "j < r_ny r" using that(2) indexy_less [OF f(3,4), of "vy c + rad"] by linarith
    have "(i + r_nx r * j) mod 2 ^ 64 = i + r_nx r * j"
      using i j f(2,4) by (rule cell_mod)
    moreover have "i + r_nx r * j < r_nx r * r_ny r" using i j by (rule cell_less)
    ultimately show ?thesis using f(10) by simp
  qed
  have "query r c rad =
          concat (map (\<lambda>j. concat (map (\<lambda>i.
               filter (\<lambda>k. dsq c (r_loc r ! k) \<le> rad * rad)
                 (r_data r ! ((i + r_nx r * j) mod 2 ^ 64)))
             [indexx r (vx c - rad)..<Suc ?ib]))
           [indexy r (vy c - rad)..<Suc ?jb])"
    using inside by (simp add: query_def Let_def del: upt_Suc)
  also have "\<dots> = concat (map (\<lambda>j. concat (map (\<lambda>i.
               filter (\<lambda>k. dsq c (r_loc r ! k) \<le> rad * rad)
                 (filter (\<lambda>k. index r (r_loc r ! k) = i + r_nx r * j) [0..<length (r_loc r)]))
             [indexx r (vx c - rad)..<Suc ?ib]))
           [indexy r (vy c - rad)..<Suc ?jb])"
    by (intro arg_cong [where f = concat] map_cong refl) (use cell in \<open>simp del: upt_Suc\<close>)
  finally show ?thesis .
qed

lemma query_mem:
  assumes inv: "raster_inv r"
  shows "k \<in> set (query r c rad) \<longleftrightarrow>
           \<not> (vx c < r_x0 r - rad \<or> vx c > r_x1 r + rad
               \<or> vy c < r_y0 r - rad \<or> vy c > r_y1 r + rad)
           \<and> k < length (r_loc r) \<and> dsq c (r_loc r ! k) \<le> rad * rad
           \<and> indexx r (vx c - rad) \<le> indexx r (vx (r_loc r ! k))
           \<and> indexx r (vx (r_loc r ! k)) \<le> indexx r (vx c + rad)
           \<and> indexy r (vy c - rad) \<le> indexy r (vy (r_loc r ! k))
           \<and> indexy r (vy (r_loc r ! k)) \<le> indexy r (vy c + rad)"
proof (cases "vx c < r_x0 r - rad \<or> vx c > r_x1 r + rad
              \<or> vy c < r_y0 r - rad \<or> vy c > r_y1 r + rad")
  case True
  then show ?thesis by (auto simp: query_def)
next
  case False
  note f = raster_invD [OF inv]
  let ?ik = "indexx r (vx (r_loc r ! k))" and ?jk = "indexy r (vy (r_loc r ! k))"
  have ik: "?ik < r_nx r" by (rule indexx_less [OF f(1,2)])
  have ix: "index r (r_loc r ! k) = ?ik + r_nx r * ?jk" by (rule index_eq [OF f(1,2,3,4)])
  have uniq: "?ik + r_nx r * ?jk = i + r_nx r * j \<longleftrightarrow> i = ?ik \<and> j = ?jk" if "i < r_nx r" for i j
  proof
    assume e: "?ik + r_nx r * ?jk = i + r_nx r * j"
    have "(?ik + r_nx r * ?jk) div r_nx r = ?jk" using ik by simp
    moreover have "(i + r_nx r * j) div r_nx r = j" using that by simp
    ultimately have "j = ?jk" using e by simp
    with e show "i = ?ik \<and> j = ?jk" by simp
  qed simp
  have "k \<in> set (query r c rad) \<longleftrightarrow>
          (\<exists>j\<in>{indexy r (vy c - rad)..<Suc (indexy r (vy c + rad))}.
           \<exists>i\<in>{indexx r (vx c - rad)..<Suc (indexx r (vx c + rad))}.
             k < length (r_loc r) \<and> index r (r_loc r ! k) = i + r_nx r * j
             \<and> dsq c (r_loc r ! k) \<le> rad * rad)"
    unfolding query_cells [OF inv False] by (auto simp del: upt_Suc)
  also have "\<dots> \<longleftrightarrow>
          (\<exists>j\<in>{indexy r (vy c - rad)..<Suc (indexy r (vy c + rad))}.
           \<exists>i\<in>{indexx r (vx c - rad)..<Suc (indexx r (vx c + rad))}.
             k < length (r_loc r) \<and> (i = ?ik \<and> j = ?jk)
             \<and> dsq c (r_loc r ! k) \<le> rad * rad)"
  proof (intro bex_cong refl)
    fix j i assume "i \<in> {indexx r (vx c - rad)..<Suc (indexx r (vx c + rad))}"
    then have "i < r_nx r" using indexx_less [OF f(1,2), of "vx c + rad"] by simp
    then show "(k < length (r_loc r) \<and> index r (r_loc r ! k) = i + r_nx r * j
                \<and> dsq c (r_loc r ! k) \<le> rad * rad)
               \<longleftrightarrow> (k < length (r_loc r) \<and> (i = ?ik \<and> j = ?jk)
                \<and> dsq c (r_loc r ! k) \<le> rad * rad)"
      unfolding ix using uniq by blast
  qed
  also have "\<dots> \<longleftrightarrow> k < length (r_loc r) \<and> dsq c (r_loc r ! k) \<le> rad * rad
           \<and> indexx r (vx c - rad) \<le> ?ik \<and> ?ik \<le> indexx r (vx c + rad)
           \<and> indexy r (vy c - rad) \<le> ?jk \<and> ?jk \<le> indexy r (vy c + rad)"
    by (auto simp: less_Suc_eq_le)
  finally show ?thesis using False by blast
qed

lemma query_sound:
  assumes "raster_inv r" "k \<in> set (query r c rad)"
  shows "k < length (r_loc r)" "dsq c (r_loc r ! k) \<le> rad * rad"
  using assms(2) unfolding query_mem [OF assms(1)] by blast+

lemma point_in_range:
  assumes inv: "raster_inv r" and k: "k < length (r_loc r)"
  shows "(vx (r_loc r ! k) - r_x0 r) * r_idx r < 2 ^ 31"
    and "(vy (r_loc r ! k) - r_y0 r) * r_idy r < 2 ^ 31"
proof -
  note f = raster_invD [OF inv]
  note b = f(9) [OF k]
  have "(vx (r_loc r ! k) - r_x0 r) * r_idx r \<le> (r_x1 r - r_x0 r) * r_idx r"
    using b f(5) by (intro mult_right_mono) simp_all
  also have "\<dots> = real (r_nx r)" by (rule f)
  also have "\<dots> < 2 ^ 31" using f(2)
    by (metis of_nat_less_iff of_nat_numeral of_nat_power)
  finally show "(vx (r_loc r ! k) - r_x0 r) * r_idx r < 2 ^ 31" .
  have "(vy (r_loc r ! k) - r_y0 r) * r_idy r \<le> (r_y1 r - r_y0 r) * r_idy r"
    using b f(6) by (intro mult_right_mono) simp_all
  also have "\<dots> = real (r_ny r)" by (rule f)
  also have "\<dots> < 2 ^ 31" using f(4)
    by (metis of_nat_less_iff of_nat_numeral of_nat_power)
  finally show "(vy (r_loc r ! k) - r_y0 r) * r_idy r < 2 ^ 31" .
qed

text \<open>
  \<^verbatim>\<open>query\<close> misses nothing in a coordinate when the conversion at the upper end of
  the interval is in range, and also when all positions agree in that coordinate, since
  they are in the first cell then.
\<close>

lemma query_set:
  assumes inv: "raster_inv r" and rad: "0 \<le> rad"
    and xr: "(\<forall>k<length (r_loc r). vx (r_loc r ! k) = r_x0 r)
             \<or> (vx c + rad - r_x0 r) * r_idx r < 2 ^ 31"
    and yr: "(\<forall>k<length (r_loc r). vy (r_loc r ! k) = r_y0 r)
             \<or> (vy c + rad - r_y0 r) * r_idy r < 2 ^ 31"
  shows "set (query r c rad) = {k. k < length (r_loc r) \<and> dsq c (r_loc r ! k) \<le> rad * rad}"
proof (intro set_eqI iffI)
  fix k assume "k \<in> set (query r c rad)"
  then show "k \<in> {k. k < length (r_loc r) \<and> dsq c (r_loc r ! k) \<le> rad * rad}"
    using query_sound [OF inv] by simp
next
  note f = raster_invD [OF inv]
  fix k assume "k \<in> {k. k < length (r_loc r) \<and> dsq c (r_loc r ! k) \<le> rad * rad}"
  then have k: "k < length (r_loc r)" and le: "dsq c (r_loc r ! k) \<le> rad * rad" by simp_all
  let ?p = "r_loc r ! k"
  note b = f(9) [OF k]
  note wx = dsq_within_x [OF le rad] and wy = dsq_within_y [OF le rad]
  have inside: "\<not> (vx c < r_x0 r - rad \<or> vx c > r_x1 r + rad
                    \<or> vy c < r_y0 r - rad \<or> vy c > r_y1 r + rad)"
    using b wx wy by linarith
  have x0: "indexx r (vx c - rad) \<le> indexx r (vx ?p)"
    using f(5) wx point_in_range(1) [OF inv k] by (intro indexx_mono) simp_all
  have y0: "indexy r (vy c - rad) \<le> indexy r (vy ?p)"
    using f(6) wy point_in_range(2) [OF inv k] by (intro indexy_mono) simp_all
  have x1: "indexx r (vx ?p) \<le> indexx r (vx c + rad)"
    using xr
  proof
    assume "\<forall>k<length (r_loc r). vx (r_loc r ! k) = r_x0 r"
    then have "vx ?p = r_x0 r" using k by blast
    then have "indexx r (vx ?p) = 0" by (simp add: indexx_zero)
    then show ?thesis by simp
  next
    assume "(vx c + rad - r_x0 r) * r_idx r < 2 ^ 31"
    then show ?thesis using f(5) wx by (intro indexx_mono) simp_all
  qed
  have y1: "indexy r (vy ?p) \<le> indexy r (vy c + rad)"
    using yr
  proof
    assume "\<forall>k<length (r_loc r). vy (r_loc r ! k) = r_y0 r"
    then have "vy ?p = r_y0 r" using k by blast
    then have "indexy r (vy ?p) = 0" by (simp add: indexy_zero)
    then show ?thesis by simp
  next
    assume "(vy c + rad - r_y0 r) * r_idy r < 2 ^ 31"
    then show ?thesis using f(6) wy by (intro indexy_mono) simp_all
  qed
  show "k \<in> set (query r c rad)"
    unfolding query_mem [OF inv] using inside k le x0 x1 y0 y1 by blast
qed

lemma query_outside:
  assumes inv: "raster_inv r" and rad: "0 \<le> rad"
    and out: "vx c < r_x0 r - rad \<or> vx c > r_x1 r + rad
              \<or> vy c < r_y0 r - rad \<or> vy c > r_y1 r + rad"
  shows "query r c rad = []"
    and "{k. k < length (r_loc r) \<and> dsq c (r_loc r ! k) \<le> rad * rad} = {}"
proof -
  show "query r c rad = []" using out by (auto simp: query_def)
  have "\<not> dsq c (r_loc r ! k) \<le> rad * rad" if k: "k < length (r_loc r)" for k
  proof
    assume le: "dsq c (r_loc r ! k) \<le> rad * rad"
    note b = raster_invD(9) [OF inv k]
    with dsq_within_x [OF le rad] dsq_within_y [OF le rad] out show False by linarith
  qed
  then show "{k. k < length (r_loc r) \<and> dsq c (r_loc r ! k) \<le> rad * rad} = {}" by blast
qed

text \<open>
  The conversions of a query that passes the bounding box test are in range when the
  raster is not too fine for the radius.
\<close>

lemma wide_in_range:
  assumes inv: "raster_inv r" and rad: "0 \<le> rad"
    and inside: "\<not> (vx c < r_x0 r - rad \<or> vx c > r_x1 r + rad
                    \<or> vy c < r_y0 r - rad \<or> vy c > r_y1 r + rad)"
    and wx: "real (r_nx r) + 2 * rad * r_idx r < 2 ^ 31"
    and wy: "real (r_ny r) + 2 * rad * r_idy r < 2 ^ 31"
  shows "(vx c + rad - r_x0 r) * r_idx r < 2 ^ 31"
    and "(vy c + rad - r_y0 r) * r_idy r < 2 ^ 31"
proof -
  note f = raster_invD [OF inv]
  have "(vx c + rad - r_x0 r) * r_idx r \<le> ((r_x1 r - r_x0 r) + 2 * rad) * r_idx r"
    using inside f(5) by (intro mult_right_mono) simp_all
  also have "\<dots> = real (r_nx r) + 2 * rad * r_idx r"
    using f(7) by (simp add: algebra_simps)
  finally show "(vx c + rad - r_x0 r) * r_idx r < 2 ^ 31" using wx by simp
  have "(vy c + rad - r_y0 r) * r_idy r \<le> ((r_y1 r - r_y0 r) + 2 * rad) * r_idy r"
    using inside f(6) by (intro mult_right_mono) simp_all
  also have "\<dots> = real (r_ny r) + 2 * rad * r_idy r"
    using f(8) by (simp add: algebra_simps)
  finally show "(vy c + rad - r_y0 r) * r_idy r < 2 ^ 31" using wy by simp
qed

lemma query_set_wide:
  assumes inv: "raster_inv r" and rad: "0 \<le> rad"
    and wx: "(\<forall>k<length (r_loc r). vx (r_loc r ! k) = r_x0 r)
             \<or> real (r_nx r) + 2 * rad * r_idx r < 2 ^ 31"
    and wy: "(\<forall>k<length (r_loc r). vy (r_loc r ! k) = r_y0 r)
             \<or> real (r_ny r) + 2 * rad * r_idy r < 2 ^ 31"
  shows "set (query r c rad) = {k. k < length (r_loc r) \<and> dsq c (r_loc r ! k) \<le> rad * rad}"
proof (cases "vx c < r_x0 r - rad \<or> vx c > r_x1 r + rad
              \<or> vy c < r_y0 r - rad \<or> vy c > r_y1 r + rad")
  case True
  from query_outside [OF inv rad True] show ?thesis by simp
next
  case False
  note f = raster_invD [OF inv]
  have xr: "(\<forall>k<length (r_loc r). vx (r_loc r ! k) = r_x0 r)
             \<or> (vx c + rad - r_x0 r) * r_idx r < 2 ^ 31"
    using wx
  proof
    assume w: "real (r_nx r) + 2 * rad * r_idx r < 2 ^ 31"
    have "(vx c + rad - r_x0 r) * r_idx r \<le> ((r_x1 r - r_x0 r) + 2 * rad) * r_idx r"
      using False f(5) by (intro mult_right_mono) simp_all
    also have "\<dots> = real (r_nx r) + 2 * rad * r_idx r"
      using f(7) by (simp add: algebra_simps)
    finally show ?thesis using w by simp
  qed simp
  have yr: "(\<forall>k<length (r_loc r). vy (r_loc r ! k) = r_y0 r)
             \<or> (vy c + rad - r_y0 r) * r_idy r < 2 ^ 31"
    using wy
  proof
    assume w: "real (r_ny r) + 2 * rad * r_idy r < 2 ^ 31"
    have "(vy c + rad - r_y0 r) * r_idy r \<le> ((r_y1 r - r_y0 r) + 2 * rad) * r_idy r"
      using False f(6) by (intro mult_right_mono) simp_all
    also have "\<dots> = real (r_ny r) + 2 * rad * r_idy r"
      using f(8) by (simp add: algebra_simps)
    finally show ?thesis using w by simp
  qed simp
  from query_set [OF inv rad xr yr] show ?thesis .
qed

lemma distinct_concat_map:
  assumes "distinct xs" "\<And>a. a \<in> set xs \<Longrightarrow> distinct (f a)"
    "\<And>a b. a \<in> set xs \<Longrightarrow> b \<in> set xs \<Longrightarrow> a \<noteq> b \<Longrightarrow> set (f a) \<inter> set (f b) = {}"
  shows "distinct (concat (map f xs))"
  using assms
proof (induction xs)
  case Nil
  then show ?case by simp
next
  case (Cons a xs)
  have "distinct (concat (map f xs))"
    by (rule Cons.IH) (use Cons.prems in auto)
  moreover have "distinct (f a)" using Cons.prems(2) by simp
  moreover have "set (f a) \<inter> set (f b) = {}" if "b \<in> set xs" for b
    using Cons.prems(1) Cons.prems(3) [of a b] that by auto
  ultimately show ?case by auto
qed

lemma query_distinct:
  assumes inv: "raster_inv r"
  shows "distinct (query r c rad)"
proof (cases "vx c < r_x0 r - rad \<or> vx c > r_x1 r + rad
              \<or> vy c < r_y0 r - rad \<or> vy c > r_y1 r + rad")
  case True
  then show ?thesis by (auto simp: query_def)
next
  case False
  note f = raster_invD [OF inv]
  let ?ia = "indexx r (vx c - rad)" and ?ib = "indexx r (vx c + rad)"
  let ?ja = "indexy r (vy c - rad)" and ?jb = "indexy r (vy c + rad)"
  let ?cell = "\<lambda>i j. filter (\<lambda>k. dsq c (r_loc r ! k) \<le> rad * rad)
                 (filter (\<lambda>k. index r (r_loc r ! k) = i + r_nx r * j) [0..<length (r_loc r)])"
  let ?row = "\<lambda>j. concat (map (\<lambda>i. ?cell i j) [?ia..<Suc ?ib])"
  have i1: "?ib < r_nx r" by (rule indexx_less [OF f(1,2)])
  have cell: "distinct (?cell i j) \<and> set (?cell i j) \<subseteq> {k. index r (r_loc r ! k) = i + r_nx r * j}"
    for i j
    by auto
  have row: "distinct (?row j) \<and> set (?row j) \<subseteq> {k. index r (r_loc r ! k) div r_nx r = j}"
    for j
  proof
    show "distinct (?row j)"
    proof (rule distinct_concat_map)
      show "distinct [?ia..<Suc ?ib]" by simp
      show "distinct (?cell i j)" for i by simp
      show "set (?cell a j) \<inter> set (?cell b j) = {}" if "a \<noteq> b" for a b
        using that by auto
    qed
    show "set (?row j) \<subseteq> {k. index r (r_loc r ! k) div r_nx r = j}"
    proof
      fix k assume "k \<in> set (?row j)"
      then obtain i where i: "i \<le> ?ib" and k: "k \<in> set (?cell i j)"
        by (auto simp: less_Suc_eq_le simp del: upt_Suc)
      from k have "index r (r_loc r ! k) = i + r_nx r * j" by auto
      moreover have "i < r_nx r" using i i1 by linarith
      ultimately show "k \<in> {k. index r (r_loc r ! k) div r_nx r = j}" by simp
    qed
  qed
  have "distinct (concat (map ?row [?ja..<Suc ?jb]))"
  proof (rule distinct_concat_map)
    show "distinct [?ja..<Suc ?jb]" by simp
    show "distinct (?row j)" for j
      using row [of j] by blast
    show "set (?row a) \<inter> set (?row b) = {}" if "a \<noteq> b" for a b
    proof -
      have "set (?row a) \<subseteq> {k. index r (r_loc r ! k) div r_nx r = a}"
        "set (?row b) \<subseteq> {k. index r (r_loc r ! k) div r_nx r = b}"
        using row [of a] row [of b] by blast+
      with \<open>a \<noteq> b\<close> show ?thesis by blast
    qed
  qed
  then show ?thesis unfolding query_cells [OF inv False] .
qed

lemma anyIn_query: "anyIn r c rad \<longleftrightarrow> query r c rad \<noteq> []"
  by (auto simp: anyIn_def query_def Let_def list_ex_iff filter_empty_conv simp del: upt_Suc)







subsection \<open>The projection\<close>

lemma targetToPFI_pos:
  "map pos (targetToPFI tangent tgt los psi) =
     map (\<lambda>t. let u = vx (tangent los (radec2ptg (vx (pos t)) (vy (pos t))));
                   v = vy (tangent los (radec2ptg (vx (pos t)) (vy (pos t))));
                   pnew = \<lparr>vx = sin psi * u - cos psi * v, vy = cos psi * u + sin psi * v\<rparr>;
                   rsq = vx pnew * vx pnew + vy pnew * vy pnew
               in \<lparr>vx = (- 7.45 * rsq * rsq - 13.7 * rsq - 320) * vx pnew,
                   vy = (7.45 * rsq * rsq + 13.7 * rsq + 320) * vy pnew\<rparr>) tgt"
  by (simp add: targetToPFI_def rotate_vec_def Let_def)

text \<open>
  Claim C2. \<^verbatim>\<open>rotate\<close> takes the sine first and the cosine second, as the calls in
  \<^verbatim>\<open>id2fiberpos\<close> pass them; \<^verbatim>\<open>targetToPFI\<close> passes \<^verbatim>\<open>cpsi\<close> first and \<^verbatim>\<open>spsi\<close> second.
  For the position angle 0 and a target whose tangent-plane pair is \<open>(1, 0)\<close>, the pair
  that enters the polynomial is \<open>(0, 1)\<close> and the target lands at \<open>(0, 341.15)\<close>; the
  rotation by the angle 0 leaves the pair at \<open>(1, 0)\<close>.
\<close>

theorem targetToPFI_swaps_sin_cos:
  "targetToPFI (\<lambda>los p. \<lparr>vx = 1, vy = 0\<rparr>)
     [\<lparr>pos = \<lparr>vx = 10, vy = 20\<rparr>, time = 1, pri = 1, ident = 0\<rparr>] \<lparr>theta = 1, phi = 0\<rparr> 0
   = [\<lparr>pos = \<lparr>vx = 0, vy = 341.15\<rparr>, time = 1, pri = 1, ident = 0\<rparr>]
   \<and> rotate_vec \<lparr>vx = 1, vy = 0\<rparr> (cos 0) (sin 0) = \<lparr>vx = 0, vy = 1\<rparr>
   \<and> rotate_by_angle 0 \<lparr>vx = 1, vy = 0\<rparr> = \<lparr>vx = 1, vy = 0\<rparr>"
  by (simp add: targetToPFI_def rotate_vec_def rotate_by_angle_def Let_def)

subsection \<open>The targets passed to the assigner\<close>

lemma nfiber_pos: "0 < nfiber"
  by (simp add: nfiber_def)

lemma anyIn_iff:
  assumes "raster_inv r" "0 \<le> rad"
    and "(\<forall>k<length (r_loc r). vx (r_loc r ! k) = r_x0 r)
         \<or> real (r_nx r) + 2 * rad * r_idx r < 2 ^ 31"
    and "(\<forall>k<length (r_loc r). vy (r_loc r ! k) = r_y0 r)
         \<or> real (r_ny r) + 2 * rad * r_idy r < 2 ^ 31"
  shows "anyIn r c rad \<longleftrightarrow> (\<exists>k<length (r_loc r). dsq c (r_loc r ! k) \<le> rad * rad)"
proof -
  have "anyIn r c rad \<longleftrightarrow> set (query r c rad) \<noteq> {}" by (simp add: anyIn_query)
  also have "\<dots> \<longleftrightarrow> (\<exists>k<length (r_loc r). dsq c (r_loc r ! k) \<le> rad * rad)"
    unfolding query_set_wide [OF assms] by blast
  finally show ?thesis .
qed

lemma id2fiberpos_0: "id2fiberpos 0 = \<lparr>vx = - 8 * sqrt 0.75, vy = 4\<rparr>"
  by (simp add: id2fiberpos_def Let_def signed_divide_int_def)

lemma id2fiberpos_797: "id2fiberpos 797 = \<lparr>vx = - 216 * sqrt 0.75, vy = - 116\<rparr>"
  by (simp add: id2fiberpos_def Let_def signed_divide_int_def)

lemma sqrt_075_bounds: "1 / 2 \<le> sqrt 0.75" "sqrt 0.75 \<le> 1"
proof -
  show "1 / 2 \<le> sqrt 0.75" by (rule real_le_rsqrt) (simp add: power2_eq_square)
  have "sqrt 0.75 \<le> sqrt 1" by (subst real_sqrt_le_iff) simp
  then show "sqrt 0.75 \<le> 1" by simp
qed

text \<open>
  The raster of the fiber centres is at least 100 mm wide and high, so its cells are at
  least 1 mm wide and high.
\<close>

lemma scale_le_1:
  fixes s w :: real
  assumes "w * s = 100" "100 \<le> w" "0 < s"
  shows "s \<le> 1"
proof -
  have "100 * s \<le> w * s" using assms(2,3) by (intro mult_right_mono) simp_all
  with assms(1) show ?thesis by simp
qed

lemma fiber_raster:
  assumes r: "mk_fpraster (map (\<lambda>i. id2fiberpos (int i)) [0..<nfiber]) 100 100 = Inr r"
  shows "raster_inv r" "r_idx r \<le> 1" "r_idy r \<le> 1"
proof -
  show inv: "raster_inv r" using r by (rule mk_fpraster_inv) simp_all
  note f = raster_invD [OF inv]
  note g = mk_fpraster_fields(1,2,3) [OF r]
  have k: "0 < length (r_loc r)" "797 < length (r_loc r)" by (simp_all add: g nfiber_def)
  have p0: "r_loc r ! 0 = \<lparr>vx = - 8 * sqrt 0.75, vy = 4\<rparr>"
    using id2fiberpos_0 by (simp add: g nfiber_def)
  have "r_loc r ! 797 = id2fiberpos (int 797)"
    unfolding g by (subst nth_map) (simp_all add: nfiber_def)
  then have p1: "r_loc r ! 797 = \<lparr>vx = - 216 * sqrt 0.75, vy = - 116\<rparr>"
    using id2fiberpos_797 by simp
  from f(9) [OF k(1)] f(9) [OF k(2)]
  have "- 8 * sqrt 0.75 \<le> r_x1 r" "r_x0 r \<le> - 216 * sqrt 0.75" "4 \<le> r_y1 r" "r_y0 r \<le> - 116"
    unfolding p0 p1 by simp_all
  with sqrt_075_bounds(1) have w: "100 \<le> r_x1 r - r_x0 r" "100 \<le> r_y1 r - r_y0 r"
    by linarith+
  show "r_idx r \<le> 1" using f(7) w(1) f(5) by (intro scale_le_1) (simp_all add: g)
  show "r_idy r \<le> 1" using f(8) w(2) f(6) by (intro scale_le_1) (simp_all add: g)
qed

lemma select_observable_eq:
  assumes "0 \<le> rmax + safety" and "rmax + safety \<le> 10 ^ 9"
  shows "select_observable tgt safety =
     Inr (filter (\<lambda>i. \<exists>f<nfiber. dsq (pos (tgt ! i)) (id2fiberpos (int f))
                                  \<le> (rmax + safety) * (rmax + safety))
            [0..<length tgt])"
proof -
  let ?fpos = "map (\<lambda>i. id2fiberpos (int i)) [0..<nfiber]"
  have "?fpos \<noteq> []" using nfiber_pos by simp
  with mk_fpraster_Inr [of 100 100 ?fpos] obtain r where r: "mk_fpraster ?fpos 100 100 = Inr r"
    by auto
  note fr = fiber_raster [OF r]
  have loc: "r_loc r = ?fpos" and n: "r_nx r = 100" "r_ny r = 100"
    using r by (rule mk_fpraster_fields)+
  have "2 * (rmax + safety) * r_idx r \<le> 2 * (rmax + safety) * 1"
    "2 * (rmax + safety) * r_idy r \<le> 2 * (rmax + safety) * 1"
    using assms(1) fr(2,3) by (intro mult_left_mono; simp)+
  with assms(2) have w: "real (r_nx r) + 2 * (rmax + safety) * r_idx r < 2 ^ 31"
    "real (r_ny r) + 2 * (rmax + safety) * r_idy r < 2 ^ 31"
    by (simp_all add: n)
  have "anyIn r c (rmax + safety)
        \<longleftrightarrow> (\<exists>f<nfiber. dsq c (id2fiberpos (int f)) \<le> (rmax + safety) * (rmax + safety))" for c
    unfolding anyIn_iff [OF fr(1) assms(1) disjI2 [OF w(1)] disjI2 [OF w(2)]] loc by auto
  then show ?thesis by (simp add: select_observable_def r)
qed


lemma rmax_r_kernel_nonneg: "0 \<le> rmax + r_kernel" "rmax + r_kernel \<le> 10 ^ 9"
  by (simp_all add: rmax_def r_kernel_def)

text \<open>
  Claim C3, as amended. In \<^verbatim>\<open>single_exposure\<close> the targets kept are exactly the
  projected targets that have the centre of some fiber within \<open>rmax + r_kernel\<close> (9.5 mm);
  the others are removed. The kept targets, in the order of their indices, are the list
  the assigner is called with, unless none is kept, and the indices the assigner
  returns are mapped back to the indices of the input.
\<close>

theorem single_exposure_selection:
  "single_exposure tangent tgt center posang ass =
     (let tgt1 = targetToPFI tangent tgt center posang;
          sel = filter (\<lambda>i. \<exists>f<nfiber. dsq (pos (tgt1 ! i)) (id2fiberpos (int f))
                                         \<le> (rmax + r_kernel) * (rmax + r_kernel))
                  [0..<length tgt1];
          tgt2 = map (\<lambda>i. tgt1 ! i) sel
      in (case (if tgt2 \<noteq> [] then ass tgt2 else Some (Inr ([], []))) of
            None \<Rightarrow> None
          | Some (Inl e) \<Rightarrow> Some (Inl e)
          | Some (Inr (tid, fid)) \<Rightarrow> Some (Inr (map (\<lambda>t. sel ! t) tid, fid))))"
  by (simp add: single_exposure_def select_observable_eq [OF rmax_r_kernel_nonneg] Let_def)

text \<open>
  The claim as stated fails: a projected target at the centre of fiber 797, a corner of
  the field, lies about 220 mm from the origin, farther than \<open>190 + 4.75\<close>, and it is
  kept.
\<close>

theorem select_observable_keeps_far_target:
  "select_observable [\<lparr>pos = \<lparr>vx = - 216 * sqrt 0.75, vy = - 116\<rparr>, time = 1, pri = 1, ident = 0\<rparr>]
     r_kernel = Inr [0]
   \<and> (190 + 4.75) * (190 + 4.75) < dsq \<lparr>vx = - 216 * sqrt 0.75, vy = - 116\<rparr> \<lparr>vx = 0, vy = 0\<rparr>"
proof
  have "797 < nfiber" by (simp add: nfiber_def)
  moreover have "dsq \<lparr>vx = - 216 * sqrt 0.75, vy = - 116\<rparr> (id2fiberpos (int 797))
                 \<le> (rmax + r_kernel) * (rmax + r_kernel)"
    by (simp add: id2fiberpos_797 dsq_def rmax_def r_kernel_def)
  ultimately have "\<exists>f<nfiber. dsq \<lparr>vx = - 216 * sqrt 0.75, vy = - 116\<rparr> (id2fiberpos (int f))
                 \<le> (rmax + r_kernel) * (rmax + r_kernel)"
    by blast
  then show "select_observable
      [\<lparr>pos = \<lparr>vx = - 216 * sqrt 0.75, vy = - 116\<rparr>, time = 1, pri = 1, ident = 0\<rparr>] r_kernel
      = Inr [0]"
    by (simp add: select_observable_eq [OF rmax_r_kernel_nonneg])
  have "sqrt 0.75 * sqrt 0.75 = 0.75" by simp
  then have "(216 * sqrt 0.75) * (216 * sqrt 0.75) = 34992"
    by (simp add: algebra_simps)
  then show "(190 + 4.75) * (190 + 4.75)
             < dsq \<lparr>vx = - 216 * sqrt 0.75, vy = - 116\<rparr> \<lparr>vx = 0, vy = 0\<rparr>"
    by (simp add: dsq_def)
qed

subsection \<open>The mappings\<close>

lemma bij_inv_sym: "bij_inv na nb A B \<Longrightarrow> bij_inv nb na B A"
  unfolding bij_inv_def by blast

lemma stripout_once: "distinct v \<Longrightarrow> val \<in> set v \<Longrightarrow> stripout v val = Inr (removeAll val v)"
proof -
  assume d: "distinct v" and m: "val \<in> set v"
  have "length (removeAll val v) = length (remove1 val v)"
    using d by (simp add: distinct_remove1_removeAll)
  also have "\<dots> = length v - 1" using m by (simp add: length_remove1)
  finally have "length (removeAll val v) + 1 = length v"
    using m by (cases v) auto
  then show ?thesis by (simp add: stripout_def Let_def)
qed

lemma stripout_Inr_iff: "(\<exists>v'. stripout v val = Inr v') \<longleftrightarrow> count_list v val = 1"
proof -
  have "length (removeAll val v) + count_list v val = length v"
    by (induction v) auto
  then show ?thesis by (auto simp: stripout_def Let_def)
qed

lemma strip_fold:
  assumes "distinct ks" and "\<forall>k\<in>set ks. k < length m \<and> distinct (m ! k) \<and> v \<in> set (m ! k)"
  shows "\<exists>m'. fold_err (\<lambda>k m. strip_at m k v) ks m = Inr m' \<and> length m' = length m
           \<and> (\<forall>k<length m. m' ! k = (if k \<in> set ks then removeAll v (m ! k) else m ! k))"
  using assms
proof (induction ks arbitrary: m)
  case Nil
  then show ?case by simp
next
  case (Cons k ks)
  let ?m1 = "m[k := removeAll v (m ! k)]"
  have k: "k < length m" "distinct (m ! k)" "v \<in> set (m ! k)" using Cons.prems(2) by simp_all
  have s: "strip_at m k v = Inr ?m1"
    using k by (simp add: strip_at_def stripout_once)
  have "\<forall>k'\<in>set ks. k' < length ?m1 \<and> distinct (?m1 ! k') \<and> v \<in> set (?m1 ! k')"
    using Cons.prems by (auto simp: nth_list_update)
  moreover have "distinct ks" using Cons.prems(1) by simp
  ultimately obtain m' where m': "fold_err (\<lambda>k m. strip_at m k v) ks ?m1 = Inr m'"
    "length m' = length ?m1"
    "\<forall>k'<length ?m1. m' ! k' = (if k' \<in> set ks then removeAll v (?m1 ! k') else ?m1 ! k')"
    using Cons.IH [of ?m1] by blast
  have "m' ! k' = (if k' \<in> set (k # ks) then removeAll v (m ! k') else m ! k')"
    if k': "k' < length m" for k'
  proof (cases "k' = k")
    case True
    then have "k' \<notin> set ks" using Cons.prems(1) by simp
    then show ?thesis using m'(3) k' True by simp
  next
    case False
    then have "?m1 ! k' = m ! k'" by simp
    then show ?thesis using m'(3) k' False by simp
  qed
  then have "\<forall>k'<length m. m' ! k' = (if k' \<in> set (k # ks) then removeAll v (m ! k') else m ! k')"
    by blast
  with s m'(1,2) show ?case by simp
qed

lemma filter_removeAll: "filter P (removeAll a l) = filter (\<lambda>x. x \<noteq> a \<and> P x) l"
  by (induction l) auto

lemma bij_invD:
  assumes "bij_inv na nb A B"
  shows "length A = na" "length B = nb"
    "\<And>a. a < na \<Longrightarrow> distinct (A ! a)"
    "\<And>a b. a < na \<Longrightarrow> b \<in> set (A ! a) \<Longrightarrow> b < nb"
    "\<And>b. b < nb \<Longrightarrow> distinct (B ! b)"
    "\<And>a b. b < nb \<Longrightarrow> a \<in> set (B ! b) \<Longrightarrow> a < na"
    "\<And>a b. a < na \<Longrightarrow> b < nb \<Longrightarrow> b \<in> set (A ! a) \<longleftrightarrow> a \<in> set (B ! b)"
  using assms unfolding bij_inv_def by blast+

lemma drop_row:
  assumes inv: "bij_inv na nb A B" and a: "a < na"
  shows "\<exists>B'. fold_err (\<lambda>b B. strip_at B b a) (A ! a) B = Inr B'
           \<and> bij_inv na nb (A[a := []]) B'
           \<and> (\<forall>b<nb. B' ! b = removeAll a (B ! b))"
proof -
  note f = bij_invD [OF inv]
  have d: "distinct (A ! a)" using f(3) a .
  have r: "\<forall>b\<in>set (A ! a). b < length B \<and> distinct (B ! b) \<and> a \<in> set (B ! b)"
  proof
    fix b assume b: "b \<in> set (A ! a)"
    then have "b < nb" using f(4) a by blast
    moreover from this have "distinct (B ! b)" using f(5) by blast
    moreover have "a \<in> set (B ! b)" using f(7) [OF a \<open>b < nb\<close>] b by simp
    ultimately show "b < length B \<and> distinct (B ! b) \<and> a \<in> set (B ! b)" using f(2) by simp
  qed
  from strip_fold [OF d r] obtain B' where B':
    "fold_err (\<lambda>b B. strip_at B b a) (A ! a) B = Inr B'" "length B' = length B"
    "\<forall>b<length B. B' ! b = (if b \<in> set (A ! a) then removeAll a (B ! b) else B ! b)"
    by blast
  have eq: "B' ! b = removeAll a (B ! b)" if "b < nb" for b
  proof (cases "b \<in> set (A ! a)")
    case True
    then show ?thesis using B'(3) that f(2) by simp
  next
    case False
    then have "a \<notin> set (B ! b)" using f(7) [OF a that] by simp
    then show ?thesis using B'(3) that f(2) False by simp
  qed
  have "bij_inv na nb (A[a := []]) B'"
    unfolding bij_inv_def
  proof (intro conjI allI impI ballI)
    show "length (A[a := []]) = na" using f(1) by simp
    show "length B' = nb" using B'(2) f(2) by simp
  next
    fix x assume x: "x < na"
    show "distinct (A[a := []] ! x)"
      using f(3) [OF x] x f(1) by (cases "x = a") simp_all
  next
    fix x b assume x: "x < na" and b: "b \<in> set (A[a := []] ! x)"
    then have "x \<noteq> a" using f(1) by (cases "x = a") auto
    then have "b \<in> set (A ! x)" using b by simp
    then show "b < nb" using f(4) [OF x] by blast
  next
    fix b assume b: "b < nb"
    show "distinct (B' ! b)" using f(5) [OF b] by (simp add: eq [OF b] distinct_removeAll)
  next
    fix b x assume b: "b < nb" and "x \<in> set (B' ! b)"
    then have "x \<in> set (B ! b)" by (simp add: eq [OF b])
    then show "x < na" using f(6) [OF b] by blast
  next
    fix x b assume x: "x < na" and b: "b < nb"
    show "b \<in> set (A[a := []] ! x) \<longleftrightarrow> x \<in> set (B' ! b)"
    proof (cases "x = a")
      case True
      then show ?thesis using f(1) x by (simp add: eq [OF b])
    next
      case False
      then show ?thesis using f(7) [OF x b] by (simp add: eq [OF b])
    qed
  qed
  with B'(1) eq show ?thesis by blast
qed

lemma drop_rows:
  assumes "bij_inv na nb A B" and "\<forall>a\<in>set as. a < na"
  shows "\<exists>A' B'. fold_err (\<lambda>a (B, A).
                     case fold_err (\<lambda>b B. strip_at B b a) (A ! a) B of
                       Inl e \<Rightarrow> Inl e
                     | Inr B' \<Rightarrow> Inr (B', A[a := []])) as (B, A) = Inr (B', A')
           \<and> bij_inv na nb A' B'
           \<and> (\<forall>a<na. A' ! a = (if a \<in> set as then [] else A ! a))
           \<and> (\<forall>b<nb. B' ! b = filter (\<lambda>a. a \<notin> set as) (B ! b))"
  using assms
proof (induction as arbitrary: A B)
  case Nil
  then show ?case by simp
next
  case (Cons a as)
  have a: "a < na" using Cons.prems(2) by simp
  from drop_row [OF Cons.prems(1) a] obtain B1 where B1:
    "fold_err (\<lambda>b B. strip_at B b a) (A ! a) B = Inr B1"
    "bij_inv na nb (A[a := []]) B1" "\<forall>b<nb. B1 ! b = removeAll a (B ! b)"
    by blast
  have "\<forall>a\<in>set as. a < na" using Cons.prems(2) by simp
  from Cons.IH [OF B1(2) this] obtain A' B' where AB:
    "fold_err (\<lambda>a (B, A).
                     case fold_err (\<lambda>b B. strip_at B b a) (A ! a) B of
                       Inl e \<Rightarrow> Inl e
                     | Inr B' \<Rightarrow> Inr (B', A[a := []])) as (B1, A[a := []]) = Inr (B', A')"
    "bij_inv na nb A' B'"
    "\<forall>x<na. A' ! x = (if x \<in> set as then [] else A[a := []] ! x)"
    "\<forall>b<nb. B' ! b = filter (\<lambda>a. a \<notin> set as) (B1 ! b)"
    by blast
  have lenA: "length A = na" using Cons.prems(1) by (simp add: bij_inv_def)
  have rows: "\<forall>x<na. A' ! x = (if x \<in> set (a # as) then [] else A ! x)"
    using AB(3) lenA by (auto simp: nth_list_update)
  have cols: "\<forall>b<nb. B' ! b = filter (\<lambda>x. x \<notin> set (a # as)) (B ! b)"
  proof (intro allI impI)
    fix b assume b: "b < nb"
    have "B' ! b = filter (\<lambda>x. x \<notin> set as) (removeAll a (B ! b))"
      using AB(4) B1(3) b by simp
    also have "\<dots> = filter (\<lambda>x. x \<notin> set (a # as)) (B ! b)"
      by (simp add: filter_removeAll)
    finally show "B' ! b = filter (\<lambda>x. x \<notin> set (a # as)) (B ! b)" .
  qed
  from B1(1) AB(1,2) rows cols show ?case by simp
qed


lemma invert_row:
  assumes "distinct ts" and "\<forall>t\<in>set ts. t < length m"
  shows "length (fold (\<lambda>t m. m[t := m ! t @ [i]]) ts m) = length m
       \<and> (\<forall>c<length m. fold (\<lambda>t m. m[t := m ! t @ [i]]) ts m ! c
                         = (if c \<in> set ts then m ! c @ [i] else m ! c))"
  using assms
proof (induction ts arbitrary: m)
  case Nil
  then show ?case by simp
next
  case (Cons t ts)
  let ?m1 = "m[t := m ! t @ [i]]"
  have "distinct ts" "\<forall>t\<in>set ts. t < length ?m1" using Cons.prems by simp_all
  from Cons.IH [OF this] have IH:
    "length (fold (\<lambda>t m. m[t := m ! t @ [i]]) ts ?m1) = length m"
    "\<And>c. c < length m \<Longrightarrow> fold (\<lambda>t m. m[t := m ! t @ [i]]) ts ?m1 ! c
                         = (if c \<in> set ts then ?m1 ! c @ [i] else ?m1 ! c)"
    by simp_all
  have "fold (\<lambda>t m. m[t := m ! t @ [i]]) ts ?m1 ! c
          = (if c \<in> set (t # ts) then m ! c @ [i] else m ! c)" if c: "c < length m" for c
  proof (cases "c = t")
    case True
    then have "c \<notin> set ts" using Cons.prems(1) by simp
    then show ?thesis using IH(2) [OF c] True c by simp
  next
    case False
    then have "?m1 ! c = m ! c" by simp
    then show ?thesis using IH(2) [OF c] False by simp
  qed
  with IH(1) show ?case by simp
qed

lemma invert_rows:
  assumes "\<forall>i\<in>set is. distinct (F i) \<and> (\<forall>t\<in>set (F i). t < length m)"
  shows "length (fold (\<lambda>i m. fold (\<lambda>t m. m[t := m ! t @ [i]]) (F i) m) is m) = length m
       \<and> (\<forall>c<length m. fold (\<lambda>i m. fold (\<lambda>t m. m[t := m ! t @ [i]]) (F i) m) is m ! c
                         = m ! c @ filter (\<lambda>i. c \<in> set (F i)) is)"
  using assms
proof (induction "is" arbitrary: m)
  case Nil
  then show ?case by simp
next
  case (Cons i "is")
  let ?m1 = "fold (\<lambda>t m. m[t := m ! t @ [i]]) (F i) m"
  have row: "length ?m1 = length m"
    "\<And>c. c < length m \<Longrightarrow> ?m1 ! c = (if c \<in> set (F i) then m ! c @ [i] else m ! c)"
    using invert_row [of "F i" m i] Cons.prems by simp_all
  have "\<forall>i\<in>set is. distinct (F i) \<and> (\<forall>t\<in>set (F i). t < length ?m1)"
    using Cons.prems row(1) by simp
  from Cons.IH [OF this] have IH:
    "length (fold (\<lambda>i m. fold (\<lambda>t m. m[t := m ! t @ [i]]) (F i) m) is ?m1) = length m"
    "\<And>c. c < length m \<Longrightarrow>
        fold (\<lambda>i m. fold (\<lambda>t m. m[t := m ! t @ [i]]) (F i) m) is ?m1 ! c
        = ?m1 ! c @ filter (\<lambda>i. c \<in> set (F i)) is"
    using row(1) by simp_all
  show ?case using IH row(2) by simp
qed


lemma colldist_nonneg: "0 \<le> colldist" by (simp add: colldist_def)

lemma calcMappings_rows:
  assumes inv: "raster_inv r" and loc: "r_loc r = map pos tgt"
    and cm: "calcMappings tgt r = (f2t, t2f)"
  shows "length f2t = nfiber"
    and "\<And>i. i < nfiber \<Longrightarrow> distinct (f2t ! i)"
    and "\<And>i. i < nfiber \<Longrightarrow> f2t ! i =
           filter (\<lambda>j. dotdist * dotdist \<le> dsq (id2dotpos (int i)) (pos (tgt ! j)))
             (query r (id2fiberpos (int i)) rmax)"
    and "length t2f = length tgt"
    and "\<And>j. j < length tgt \<Longrightarrow> t2f ! j = filter (\<lambda>i. j \<in> set (f2t ! i)) [0..<nfiber]"
    and "\<And>i j. i < nfiber \<Longrightarrow> j \<in> set (f2t ! i) \<Longrightarrow> j < length tgt"
proof -
  define F where "F = map (\<lambda>i. filter (\<lambda>j. dotdist * dotdist \<le> dsq (id2dotpos (int i)) (pos (tgt ! j)))
                               (query r (id2fiberpos (int i)) rmax)) [0..<nfiber]"
  have "calcMappings tgt r =
          (F, fold (\<lambda>i m. fold (\<lambda>t m. m[t := m ! t @ [i]]) (F ! i) m)
                [0..<length F] (replicate (length tgt) []))"
    by (simp add: calcMappings_def Let_def F_def)
  with cm have "(f2t, t2f) =
          (F, fold (\<lambda>i m. fold (\<lambda>t m. m[t := m ! t @ [i]]) (F ! i) m)
                [0..<length F] (replicate (length tgt) []))"
    by (rule trans [OF sym])
  then have fF: "f2t = F"
    and tF: "t2f = fold (\<lambda>i m. fold (\<lambda>t m. m[t := m ! t @ [i]]) (F ! i) m)
                [0..<length F] (replicate (length tgt) [])"
    by blast+
  have f2t: "f2t = map (\<lambda>i. filter (\<lambda>j. dotdist * dotdist \<le> dsq (id2dotpos (int i)) (pos (tgt ! j)))
                               (query r (id2fiberpos (int i)) rmax)) [0..<nfiber]"
    by (simp add: fF F_def)
  show len: "length f2t = nfiber" by (simp add: f2t)
  show d: "distinct (f2t ! i)" if "i < nfiber" for i
    using that by (simp add: f2t query_distinct [OF inv])
  show row: "f2t ! i = filter (\<lambda>j. dotdist * dotdist \<le> dsq (id2dotpos (int i)) (pos (tgt ! j)))
                         (query r (id2fiberpos (int i)) rmax)"
    if "i < nfiber" for i
    using that by (simp add: f2t)
  show s: "j < length tgt" if "i < nfiber" "j \<in> set (f2t ! i)" for i j
    using that query_sound(1) [OF inv, of j "id2fiberpos (int i)" rmax] by (simp add: row loc)
  have t2f: "t2f = fold (\<lambda>i m. fold (\<lambda>t m. m[t := m ! t @ [i]]) (f2t ! i) m)
                     [0..<nfiber] (replicate (length tgt) [])"
    using tF len by (simp add: fF)
  have "\<forall>i\<in>set [0..<nfiber]. distinct (f2t ! i)
          \<and> (\<forall>t\<in>set (f2t ! i). t < length (replicate (length tgt) ([]::nat list)))"
    using d s by simp
  from invert_rows [OF this] show "length t2f = length tgt"
    and "\<And>j. j < length tgt \<Longrightarrow> t2f ! j = filter (\<lambda>i. j \<in> set (f2t ! i)) [0..<nfiber]"
    by (simp_all add: t2f)
qed

lemma calcMappings_bij:
  assumes inv: "raster_inv r" and loc: "r_loc r = map pos tgt"
    and cm: "calcMappings tgt r = (f2t, t2f)"
  shows "bij_inv nfiber (length tgt) f2t t2f"
proof -
  note c = calcMappings_rows [OF assms]
  show ?thesis
    unfolding bij_inv_def
  proof (intro conjI allI impI ballI)
    show "length f2t = nfiber" "length t2f = length tgt" by (rule c)+
  next
    fix i assume "i < nfiber"
    then show "distinct (f2t ! i)" by (rule c)
  next
    fix i j assume "i < nfiber" "j \<in> set (f2t ! i)"
    then show "j < length tgt" by (rule c(6))
  next
    fix j assume "j < length tgt"
    then show "distinct (t2f ! j)" by (simp add: c(5))
  next
    fix j i assume "j < length tgt" "i \<in> set (t2f ! j)"
    then show "i < nfiber" by (simp add: c(5))
  next
    fix i j assume "i < nfiber" "j < length tgt"
    then show "j \<in> set (f2t ! i) \<longleftrightarrow> i \<in> set (t2f ! j)" by (simp add: c(5))
  qed
qed

lemma cleanup_eq:
  assumes inv: "raster_inv r" and loc: "r_loc r = map pos tgt"
    and bij: "bij_inv nfiber (length tgt) f2t t2f"
    and fiber: "fiber < nfiber"
  shows "\<exists>f2t' t2f'. cleanup tgt r f2t t2f fiber itgt = Inr (f2t', t2f')
           \<and> bij_inv nfiber (length tgt) f2t' t2f'
           \<and> (\<forall>i<nfiber. f2t' ! i =
                 (if i = fiber then []
                  else filter (\<lambda>j. j \<notin> set (query r (pos (tgt ! itgt)) colldist)) (f2t ! i)))
           \<and> (\<forall>j<length tgt. t2f' ! j =
                 (if j \<in> set (query r (pos (tgt ! itgt)) colldist) then []
                  else removeAll fiber (t2f ! j)))"
proof -
  let ?tmp = "query r (pos (tgt ! itgt)) colldist"
  from drop_row [OF bij fiber] obtain t2f1 where t1:
    "fold_err (\<lambda>b B. strip_at B b fiber) (f2t ! fiber) t2f = Inr t2f1"
    "bij_inv nfiber (length tgt) (f2t[fiber := []]) t2f1"
    "\<forall>j<length tgt. t2f1 ! j = removeAll fiber (t2f ! j)"
    by blast
  have tmp: "\<forall>a\<in>set ?tmp. a < length tgt"
    using query_sound(1) [OF inv] by (auto simp: loc)
  from drop_rows [OF bij_inv_sym [OF t1(2)] tmp] obtain t2f' f2t' where r2:
    "fold_err (\<lambda>a (B, A).
                     case fold_err (\<lambda>b B. strip_at B b a) (A ! a) B of
                       Inl e \<Rightarrow> Inl e
                     | Inr B' \<Rightarrow> Inr (B', A[a := []])) ?tmp (f2t[fiber := []], t2f1)
       = Inr (f2t', t2f')"
    "bij_inv (length tgt) nfiber t2f' f2t'"
    "\<forall>a<length tgt. t2f' ! a = (if a \<in> set ?tmp then [] else t2f1 ! a)"
    "\<forall>b<nfiber. f2t' ! b = filter (\<lambda>a. a \<notin> set ?tmp) (f2t[fiber := []] ! b)"
    by blast
  have c: "cleanup tgt r f2t t2f fiber itgt = Inr (f2t', t2f')"
    using t1(1) r2(1) by (simp add: cleanup_def Let_def)
  have lenf: "length f2t = nfiber" using bij by (rule bij_invD)
  have rows: "\<forall>i<nfiber. f2t' ! i =
                 (if i = fiber then [] else filter (\<lambda>j. j \<notin> set ?tmp) (f2t ! i))"
    using r2(4) lenf by (auto simp: nth_list_update)
  have cols: "\<forall>j<length tgt. t2f' ! j =
                 (if j \<in> set ?tmp then [] else removeAll fiber (t2f ! j))"
    using r2(3) t1(3) by simp
  from c bij_inv_sym [OF r2(2)] rows cols show ?thesis by blast
qed


lemma tgt2raster_ok:
  assumes "tgt \<noteq> []"
  shows "\<exists>r. tgt2raster tgt 100 100 = Inr r \<and> raster_inv r \<and> r_loc r = map pos tgt
           \<and> r_nx r = 100 \<and> r_ny r = 100"
proof -
  have "map pos tgt \<noteq> []" using assms by simp
  with mk_fpraster_Inr [of 100 100 "map pos tgt"] obtain r
    where r: "mk_fpraster (map pos tgt) 100 100 = Inr r" by auto
  have "raster_inv r" using r by (rule mk_fpraster_inv) simp_all
  then show ?thesis
    using r mk_fpraster_fields(1,2,3) [OF r] by (simp add: tgt2raster_def)
qed

lemma tgt2raster_Inr:
  assumes "tgt2raster tgt 100 100 = Inr r"
  shows "raster_inv r" "r_loc r = map pos tgt" "tgt \<noteq> []" "r_nx r = 100" "r_ny r = 100"
  using assms mk_fpraster_inv [of "map pos tgt" 100 100 r]
    mk_fpraster_fields(1,2,3,6) [of "map pos tgt" 100 100 r]
  by (simp_all add: tgt2raster_def)










lemma cleanups_bij:
  assumes inv: "raster_inv r" and loc: "r_loc r = map pos tgt"
    and bij: "bij_inv nfiber (length tgt) f2t t2f"
    and calls: "\<forall>(fiber, itgt)\<in>set calls. fiber < nfiber \<and> itgt < length tgt"
  shows "\<exists>f2t' t2f'.
           fold_err (\<lambda>(fiber, itgt) (f2t, t2f). cleanup tgt r f2t t2f fiber itgt) calls (f2t, t2f)
             = Inr (f2t', t2f')
           \<and> bij_inv nfiber (length tgt) f2t' t2f'"
  using bij calls
proof (induction calls arbitrary: f2t t2f)
  case Nil
  then show ?case by simp
next
  case (Cons c calls)
  obtain fiber itgt where c: "c = (fiber, itgt)" by (cases c)
  have fiber: "fiber < nfiber" using Cons.prems(2) c by simp
  from cleanup_eq [OF inv loc Cons.prems(1) fiber, of itgt] obtain f2t1 t2f1 where
    s: "cleanup tgt r f2t t2f fiber itgt = Inr (f2t1, t2f1)"
    and b: "bij_inv nfiber (length tgt) f2t1 t2f1" by blast
  have "\<forall>(fiber, itgt)\<in>set calls. fiber < nfiber \<and> itgt < length tgt"
    using Cons.prems(2) by simp
  from Cons.IH [OF b this] show ?case using s c by simp
qed

text \<open>
  Claim C8. \<^verbatim>\<open>stripout\<close> returns without failing exactly when the value occurs once
  (\<open>stripout_Inr_iff\<close>), and \<^verbatim>\<open>cleanup\<close> fails as soon as one of its \<^verbatim>\<open>stripout\<close>
  calls does. Starting from the mappings of \<^verbatim>\<open>calcMappings\<close>, every sequence of
  \<^verbatim>\<open>cleanup\<close> calls on fibers and targets in range runs to its end without a failed
  assertion, and in the mappings it leaves no row repeats an entry and \<open>j\<close> is in
  \<open>f2t ! i\<close> exactly when \<open>i\<close> is in \<open>t2f ! j\<close>. Since every prefix of a sequence is a
  sequence, this holds after each of the calls.
\<close>

theorem cleanup_keeps_bijection:
  assumes "tgt \<noteq> []"
    and "\<forall>(fiber, itgt)\<in>set calls. fiber < nfiber \<and> itgt < length tgt"
  shows "\<exists>raster f2t t2f. tgt2raster tgt 100 100 = Inr raster
           \<and> fold_err (\<lambda>(fiber, itgt) (f2t, t2f). cleanup tgt raster f2t t2f fiber itgt)
                calls (calcMappings tgt raster) = Inr (f2t, t2f)
           \<and> length f2t = nfiber \<and> length t2f = length tgt
           \<and> (\<forall>i<nfiber. distinct (f2t ! i))
           \<and> (\<forall>j<length tgt. distinct (t2f ! j))
           \<and> (\<forall>i<nfiber. \<forall>j<length tgt. j \<in> set (f2t ! i) \<longleftrightarrow> i \<in> set (t2f ! j))"
proof -
  from tgt2raster_ok [OF assms(1)] obtain r where r: "tgt2raster tgt 100 100 = Inr r"
    and inv: "raster_inv r" and loc: "r_loc r = map pos tgt" by blast
  obtain f2t0 t2f0 where cm: "calcMappings tgt r = (f2t0, t2f0)" by (cases "calcMappings tgt r")
  have b0: "bij_inv nfiber (length tgt) f2t0 t2f0" using inv loc cm by (rule calcMappings_bij)
  from cleanups_bij [OF inv loc b0 assms(2)] obtain f2t t2f where
    run: "fold_err (\<lambda>(fiber, itgt) (f2t, t2f). cleanup tgt r f2t t2f fiber itgt) calls (f2t0, t2f0)
            = Inr (f2t, t2f)"
    and b: "bij_inv nfiber (length tgt) f2t t2f" by blast
  note f = bij_invD [OF b]
  have run': "fold_err (\<lambda>(fiber, itgt) (f2t, t2f). cleanup tgt r f2t t2f fiber itgt)
                calls (calcMappings tgt r) = Inr (f2t, t2f)"
    using run by (simp add: cm)
  show ?thesis
  proof (intro exI conjI allI impI)
    show "tgt2raster tgt 100 100 = Inr r" by (rule r)
    show "fold_err (\<lambda>(fiber, itgt) (f2t, t2f). cleanup tgt r f2t t2f fiber itgt)
                calls (calcMappings tgt r) = Inr (f2t, t2f)" by (rule run')
    show "length f2t = nfiber" "length t2f = length tgt" by (rule f)+
  next
    fix i assume "i < nfiber"
    then show "distinct (f2t ! i)" by (rule f)
  next
    fix j assume "j < length tgt"
    then show "distinct (t2f ! j)" by (rule f)
  next
    fix i j assume "i < nfiber" "j < length tgt"
    then show "j \<in> set (f2t ! i) \<longleftrightarrow> i \<in> set (t2f ! j)" by (rule f)
  qed
qed

theorem cleanup_keeps_bijection_witness:
  "\<exists>raster f2t t2f.
      tgt2raster [\<lparr>pos = \<lparr>vx = - 8 * sqrt 0.75, vy = 7\<rparr>, time = 1, pri = 1, ident = 0\<rparr>] 100 100
        = Inr raster
      \<and> fold_err (\<lambda>(fiber, itgt) (f2t, t2f).
            cleanup [\<lparr>pos = \<lparr>vx = - 8 * sqrt 0.75, vy = 7\<rparr>, time = 1, pri = 1, ident = 0\<rparr>]
              raster f2t t2f fiber itgt)
          [(0, 0), (1, 0)]
          (calcMappings [\<lparr>pos = \<lparr>vx = - 8 * sqrt 0.75, vy = 7\<rparr>, time = 1, pri = 1, ident = 0\<rparr>]
             raster)
        = Inr (f2t, t2f)
      \<and> length f2t = nfiber \<and> length t2f = 1"
proof -
  let ?T = "[\<lparr>pos = \<lparr>vx = - 8 * sqrt 0.75, vy = 7\<rparr>, time = 1, pri = 1, ident = 0\<rparr>]"
  have ne: "?T \<noteq> []" by simp
  have calls: "\<forall>(fiber, itgt)\<in>set [(0, 0), (1, 0)]. fiber < nfiber \<and> itgt < length ?T"
    by (simp add: nfiber_def)
  from cleanup_keeps_bijection [OF ne calls] show ?thesis by auto
qed

subsection \<open>The priority queue\<close>

lemma sw_asym: "strict_weak cmp \<Longrightarrow> cmp a b \<Longrightarrow> \<not> cmp b a"
  unfolding strict_weak_def by blast

lemma sw_trans: "strict_weak cmp \<Longrightarrow> cmp a b \<Longrightarrow> cmp b c \<Longrightarrow> cmp a c"
  unfolding strict_weak_def by blast

lemma sw_negtrans: "strict_weak cmp \<Longrightarrow> \<not> cmp a b \<Longrightarrow> \<not> cmp b c \<Longrightarrow> \<not> cmp a c"
  unfolding strict_weak_def by blast

lemma place_idx [simp]: "idx (place q i v) = (idx q)[i := v]"
  by (simp add: place_def Let_def)

lemma place_length_nodes [simp]: "length (nodes (place q i v)) = length (nodes q)"
  by (simp add: place_def Let_def)

lemma map_update_same: "(map f xs)[j := f (xs ! j)] = map f xs"
  by (cases "j < length xs") (simp_all add: list_update_same_conv list_update_beyond)

lemma place_prs [simp]: "prs (place q i v) = prs q"
  by (simp add: place_def Let_def prs_def map_update map_update_same)

lemma place_nodes:
  "i < length (idx q) \<Longrightarrow>
   nodes (place q i v) = (nodes q)[v := (nodes q ! v)\<lparr>node_pos := i\<rparr>]"
  by (simp add: place_def Let_def)

lemma place_same:
  assumes "pq_wf q" "1 \<le> i" "i \<le> length (nodes q)"
  shows "place q i (idx q ! i) = q"
proof -
  from assms have "node_pos (nodes q ! (idx q ! i)) = i" by (simp add: pq_wf_def)
  then have "(nodes q ! (idx q ! i))\<lparr>node_pos := i\<rparr> = nodes q ! (idx q ! i)" by simp
  then show ?thesis by (simp add: place_def Let_def)
qed

lemma pq_wfD:
  assumes "pq_wf q" "1 \<le> k" "k \<le> length (nodes q)"
  shows "idx q ! k < length (nodes q) \<and> node_pos (nodes q ! (idx q ! k)) = k"
  using assms unfolding pq_wf_def by blast

text \<open>
  The state inside a sift loop has a hole at position \<open>i\<close>, and the moving entry \<open>m\<close> is
  kept aside; \<open>place q i m\<close> is the queue with the moving entry put into the hole. One
  round of a loop moves the hole to \<open>c\<close>: on the queues with the hole filled, it
  exchanges the entries at \<open>i\<close> and \<open>c\<close>.
\<close>

lemma hole_move:
  assumes wf: "pq_wf (place q i m)"
    and i: "1 \<le> i" "i \<le> length (nodes q)" and c: "1 \<le> c" "c \<le> length (nodes q)" and ne: "c \<noteq> i"
  shows "pq_wf (place (place q i (idx q ! c)) c m)"
    and "idx (place (place q i (idx q ! c)) c m)
         = (idx (place q i m))[i := idx (place q i m) ! c, c := idx (place q i m) ! i]"
proof -
  let ?n = "length (nodes q)"
  let ?I = "idx q" and ?N = "nodes q"
  let ?w = "idx q ! c"
  have len: "length ?I = ?n + 1" using wf by (simp add: pq_wf_def)
  have il: "i < length ?I" and cl: "c < length ?I" using i c len by simp_all
  have NV: "nodes (place q i m) = ?N[m := (?N ! m)\<lparr>node_pos := i\<rparr>]"
    using il by (rule place_nodes)
  have wfk: "(?I[i := m]) ! k < ?n \<and> node_pos ((?N[m := (?N ! m)\<lparr>node_pos := i\<rparr>]) ! ((?I[i := m]) ! k)) = k"
    if "1 \<le> k" "k \<le> ?n" for k
  proof -
    have "k \<le> length (nodes (place q i m))" using that by simp
    from pq_wfD [OF wf that(1) this] show ?thesis
      by (simp only: place_idx place_length_nodes NV length_list_update)
  qed
  have m: "m < ?n" using wfk [of i] i il by simp
  have other: "?I ! k < ?n \<and> ?I ! k \<noteq> m \<and> node_pos (?N ! (?I ! k)) = k"
    if k: "1 \<le> k" "k \<le> ?n" "k \<noteq> i" for k
  proof -
    from wfk [OF k(1,2)] k(3)
    have a: "?I ! k < ?n" and b: "node_pos ((?N[m := (?N ! m)\<lparr>node_pos := i\<rparr>]) ! (?I ! k)) = k"
      by simp_all
    have "?I ! k \<noteq> m"
    proof
      assume "?I ! k = m"
      with b m have "i = k" by simp
      with k(3) show False by simp
    qed
    with a b show ?thesis by simp
  qed
  have w: "?w < ?n" "?w \<noteq> m" "node_pos (?N ! ?w) = c" using other [of c] c ne by simp_all
  let ?q1 = "place q i ?w"
  have I1: "idx ?q1 = ?I[i := ?w]" by simp
  have N1: "nodes ?q1 = ?N[?w := (?N ! ?w)\<lparr>node_pos := i\<rparr>]" using il by (rule place_nodes)
  let ?V' = "place ?q1 c m"
  have I2: "idx ?V' = ?I[i := ?w, c := m]" by simp
  have N2: "nodes ?V' = (?N[?w := (?N ! ?w)\<lparr>node_pos := i\<rparr>])
                          [m := (?N ! m)\<lparr>node_pos := c\<rparr>]"
    using cl w(2) by (simp add: place_nodes N1)
  show "idx ?V' = (idx (place q i m))[i := idx (place q i m) ! c, c := idx (place q i m) ! i]"
    using il cl ne by (simp add: list_update_overwrite)
  show "pq_wf ?V'"
    unfolding pq_wf_def
  proof (intro conjI allI impI)
    show "length (idx ?V') = length (nodes ?V') + 1" using len by simp
  next
    fix k assume k: "1 \<le> k \<and> k \<le> length (nodes ?V')"
    then have k1: "1 \<le> k" and k2: "k \<le> ?n" by simp_all
    have "idx ?V' ! k < ?n \<and> node_pos (nodes ?V' ! (idx ?V' ! k)) = k"
    proof (cases "k = c")
      case True
      then show ?thesis using cl m w by (simp add: I2 N2)
    next
      case False
      show ?thesis
      proof (cases "k = i")
        case True
        then show ?thesis using il cl ne m w by (simp add: I2 N2)
      next
        case ki: False
        from other [OF k1 k2 ki] have u: "?I ! k < ?n" "?I ! k \<noteq> m" "node_pos (?N ! (?I ! k)) = k"
          by simp_all
        have "?I ! k \<noteq> ?w"
        proof
          assume "?I ! k = ?w"
          with u(3) w(3) have "k = c" by metis
          with False show False by simp
        qed
        with u False ki show ?thesis by (simp add: I2 N2)
      qed
    qed
    then show "idx ?V' ! k < length (nodes ?V')" "node_pos (nodes ?V' ! (idx ?V' ! k)) = k"
      by simp_all
  qed
qed


lemma key_swap:
  assumes "idx q' = (idx q)[i := idx q ! c, c := idx q ! i]" and "prs q' = prs q"
    and "i < length (idx q)" and "c < length (idx q)"
  shows "key q' k = (if k = c then key q i else if k = i then key q c else key q k)"
  using assms by (simp add: key_def nth_list_update)

lemma key_place:
  "i < length (idx q) \<Longrightarrow> key (place q i m) k = (if k = i then prs q ! m else key q k)"
  by (simp add: key_def nth_list_update)

lemma length_prs [simp]: "length (prs q) = length (nodes q)"
  by (simp add: prs_def)

lemma node_pri_prs: "v < length (nodes q) \<Longrightarrow> node_pri (nodes q ! v) = prs q ! v"
  by (simp add: prs_def)

lemma child_cases: "k div 2 = i \<Longrightarrow> k = 2 * i \<or> k = 2 * i + 1" for k i :: nat
  by presburger

lemma maxchild_zero:
  assumes "length (idx q) = length (nodes q) + 1" and "1 \<le> i"
  shows "maxchild cmp q i = 0 \<longleftrightarrow> length (nodes q) < 2 * i"
  using assms by (auto simp: maxchild_def Let_def)

lemma maxchild_child:
  assumes "length (idx q) = length (nodes q) + 1" and "1 \<le> i" and "maxchild cmp q i \<noteq> 0"
  shows "maxchild cmp q i div 2 = i" "2 \<le> maxchild cmp q i" "maxchild cmp q i \<le> length (nodes q)"
  using assms by (auto simp: maxchild_def Let_def split: if_splits)

lemma maxchild_max:
  assumes sw: "strict_weak cmp"
    and len: "length (idx q) = length (nodes q) + 1" and i: "1 \<le> i"
    and c: "maxchild cmp q i \<noteq> 0"
    and k: "k div 2 = i" "k \<le> length (nodes q)"
  shows "\<not> cmp (node_pri (nodes q ! (idx q ! maxchild cmp q i))) (node_pri (nodes q ! (idx q ! k)))"
proof -
  let ?P = "\<lambda>k. node_pri (nodes q ! (idx q ! k))"
  have irr: "\<not> cmp a a" for a using sw_asym [OF sw, of a a] by blast
  from k(1) have "k = 2 * i \<or> k = 2 * i + 1" by (rule child_cases)
  then show ?thesis
  proof
    assume k2: "k = 2 * i"
    show ?thesis
    proof (cases "2 * i + 1 < length (idx q) \<and> cmp (?P (2 * i)) (?P (2 * i + 1))")
      case True
      then have "maxchild cmp q i = 2 * i + 1" using len by (simp add: maxchild_def Let_def)
      with True k2 show ?thesis using sw_asym [OF sw] by simp
    next
      case False
      then have "maxchild cmp q i = 2 * i" using c by (auto simp: maxchild_def Let_def split: if_splits)
      with k2 irr show ?thesis by simp
    qed
  next
    assume k2: "k = 2 * i + 1"
    then have lt: "2 * i + 1 < length (idx q)" using k(2) len by simp
    show ?thesis
    proof (cases "cmp (?P (2 * i)) (?P (2 * i + 1))")
      case True
      then have "maxchild cmp q i = 2 * i + 1" using lt by (simp add: maxchild_def Let_def)
      with k2 irr show ?thesis by simp
    next
      case False
      then have "maxchild cmp q i = 2 * i" using lt by (simp add: maxchild_def Let_def)
      with k2 False show ?thesis by simp
    qed
  qed
qed


lemma down_invD:
  assumes "down_inv cmp lo i q"
  shows "\<And>k. 2 \<le> k \<Longrightarrow> k \<le> length (nodes q) \<Longrightarrow> lo \<le> k div 2 \<Longrightarrow> k div 2 \<noteq> i
             \<Longrightarrow> \<not> cmp (key q (k div 2)) (key q k)"
    and "\<And>k. 2 \<le> k \<Longrightarrow> k \<le> length (nodes q) \<Longrightarrow> k div 2 = i \<Longrightarrow> lo \<le> i div 2
             \<Longrightarrow> \<not> cmp (key q (i div 2)) (key q k)"
  using assms unfolding down_inv_def by blast+

lemma sift_down_loop_inv:
  "sift_down_loop cmp mp q i = (q', i') \<Longrightarrow> strict_weak cmp \<Longrightarrow> pq_wf (place q i m)
   \<Longrightarrow> mp = prs q ! m \<Longrightarrow> 1 \<le> lo \<Longrightarrow> lo \<le> i \<Longrightarrow> i \<le> length (nodes q)
   \<Longrightarrow> down_inv cmp lo i (place q i m)
   \<Longrightarrow> pq_wf (place q' i' m) \<and> heap_from cmp lo (place q' i' m) \<and> prs q' = prs q
       \<and> length (nodes q') = length (nodes q)"
proof (induction cmp mp q i rule: sift_down_loop.induct)
  case (1 cmp mp q i)
  let ?n = "length (nodes q)"
  let ?V = "place q i m"
  let ?c = "maxchild cmp q i"
  let ?P = "\<lambda>k. node_pri (nodes q ! (idx q ! k))"
  note run = "1.prems"(1) and sw = "1.prems"(2) and wf = "1.prems"(3) and mp = "1.prems"(4)
    and lo1 = "1.prems"(5) and loi = "1.prems"(6) and inn = "1.prems"(7) and inv = "1.prems"(8)
  note invA = down_invD(1) [OF inv, simplified] and invB = down_invD(2) [OF inv, simplified]
  have len: "length (idx q) = ?n + 1" using wf by (simp add: pq_wf_def)
  have il: "i < length (idx q)" using inn len by simp
  have i1: "1 \<le> i" using lo1 loi by simp
  have Ki: "key ?V i = mp" using il mp by (simp add: key_place)
  have Kk: "key ?V k = ?P k" if k: "1 \<le> k" "k \<le> ?n" "k \<noteq> i" for k
  proof -
    have "k \<le> length (nodes ?V)" using k by simp
    from pq_wfD [OF wf k(1) this] k(3) have "idx q ! k < ?n" by simp
    then show ?thesis using k(3) il by (simp add: key_place key_def node_pri_prs)
  qed
  show ?case
  proof (cases "?c \<noteq> 0 \<and> cmp mp (?P ?c)")
    case True
    then have c0: "?c \<noteq> 0" and cc: "cmp mp (?P ?c)" by simp_all
    note ch = maxchild_child [OF len i1 c0]
    have ci: "?c \<noteq> i" using ch(1) i1 by linarith
    have c1: "1 \<le> ?c" using ch(2) by simp
    let ?q1 = "place q i (idx q ! ?c)"
    let ?V' = "place ?q1 ?c m"
    from run True have rec: "sift_down_loop cmp mp ?q1 ?c = (q', i')"
      by (subst (asm) sift_down_loop.simps) simp
    note hm = hole_move [OF wf i1 inn c1 ch(3) ci]
    have Ks: "key ?V' k = (if k = ?c then key ?V i else if k = i then key ?V ?c else key ?V k)" for k
      by (rule key_swap [OF hm(2)]) (use il ch(3) len in simp_all)
    have cmax: "\<not> cmp (key ?V ?c) (key ?V k)" if k: "2 \<le> k" "k \<le> ?n" "k div 2 = i" for k
    proof -
      have "k \<noteq> i" using k(3) i1 by linarith
      then have "key ?V k = ?P k" using k by (intro Kk) simp_all
      moreover have "key ?V ?c = ?P ?c" using c1 ch(3) ci by (intro Kk)
      ultimately show ?thesis using maxchild_max [OF sw len i1 c0 k(3) k(2)] by simp
    qed
    have D: "cmp (key ?V i) (key ?V ?c)" using cc Ki Kk [OF c1 ch(3) ci] by simp
    have inv': "down_inv cmp lo ?c ?V'"
      unfolding down_inv_def
    proof (intro conjI allI impI)
      fix k assume "2 \<le> k \<and> k \<le> length (nodes ?V') \<and> lo \<le> k div 2 \<and> k div 2 \<noteq> ?c"
      then have k2: "2 \<le> k" and kn: "k \<le> ?n" and klo: "lo \<le> k div 2" and kc: "k div 2 \<noteq> ?c"
        by simp_all
      show "\<not> cmp (key ?V' (k div 2)) (key ?V' k)"
      proof (cases "k div 2 = i")
        case True
        then have ki: "k \<noteq> i" using i1 by linarith
        show ?thesis
        proof (cases "k = ?c")
          case kc': True
          have "\<not> cmp (key ?V ?c) (key ?V i)" using sw_asym [OF sw D] .
          then show ?thesis using True kc' ci by (simp add: Ks)
        next
          case False
          then show ?thesis using True ki ci cmax [OF k2 kn True] by (simp add: Ks)
        qed
      next
        case False
        show ?thesis
        proof (cases "k = i")
          case True
          have "lo \<le> i div 2" using klo True by simp
          from invB [OF ch(2) ch(3) ch(1) this]
          show ?thesis using True False kc ci by (simp add: Ks)
        next
          case ki: False
          have "k \<noteq> ?c" using False ch(1) by auto
          then show ?thesis using invA [OF k2 kn klo False] False kc ki by (simp add: Ks)
        qed
      qed
    next
      fix k assume "2 \<le> k \<and> k \<le> length (nodes ?V') \<and> k div 2 = ?c \<and> lo \<le> ?c div 2"
      then have k2: "2 \<le> k" and kn: "k \<le> ?n" and kd: "k div 2 = ?c" by simp_all
      have kc: "k \<noteq> ?c" using kd c1 by linarith
      have ki: "k \<noteq> i" using kd ch(1) i1 by linarith
      have "lo \<le> k div 2" using kd ch(1) loi by linarith
      from invA [OF k2 kn this] kd ci have "\<not> cmp (key ?V ?c) (key ?V k)" by simp
      then show "\<not> cmp (key ?V' (?c div 2)) (key ?V' k)" using kc ki ci ch(1) by (simp add: Ks)
    qed
    have "lo \<le> ?c" using ch(1) loi by linarith
    from "1.IH" [OF True rec sw hm(1) _ lo1 this _ inv'] ch(3) mp
    show ?thesis by simp
  next
    case False
    with run have "(q, i) = (q', i')"
      by (subst (asm) sift_down_loop.simps) (auto split: if_splits)
    then have res: "q' = q" "i' = i" by simp_all
    have "heap_from cmp lo ?V"
      unfolding heap_from_def
    proof (intro allI impI)
      fix k assume "2 \<le> k \<and> k \<le> length (nodes ?V) \<and> lo \<le> k div 2"
      then have k2: "2 \<le> k" and kn: "k \<le> ?n" and klo: "lo \<le> k div 2" by simp_all
      show "\<not> cmp (key ?V (k div 2)) (key ?V k)"
      proof (cases "k div 2 = i")
        case True
        then have "2 * i \<le> k" by linarith
        then have c0: "?c \<noteq> 0" using maxchild_zero [OF len i1, of cmp] kn by simp
        note ch = maxchild_child [OF len i1 c0]
        have ci: "?c \<noteq> i" using ch(1) i1 by linarith
        have c1: "1 \<le> ?c" using ch(2) by simp
        have ki: "k \<noteq> i" using True i1 by linarith
        have "\<not> cmp mp (?P ?c)" using False c0 by simp
        then have a: "\<not> cmp (key ?V i) (key ?V ?c)" using Ki Kk [OF c1 ch(3) ci] by simp
        have "key ?V k = ?P k" using k2 kn ki by (intro Kk) simp_all
        moreover have "key ?V ?c = ?P ?c" using c1 ch(3) ci by (intro Kk)
        ultimately have b: "\<not> cmp (key ?V ?c) (key ?V k)"
          using maxchild_max [OF sw len i1 c0 True kn] by simp
        from sw_negtrans [OF sw a b] show ?thesis using True by simp
      next
        case False
        from invA [OF k2 kn klo False] show ?thesis .
      qed
    qed
    with wf res show ?thesis by simp
  qed
qed


lemma sift_down_inv:
  assumes sw: "strict_weak cmp" and wf: "pq_wf q"
    and lo: "1 \<le> lo" "lo \<le> i" "i \<le> length (nodes q)"
    and inv: "down_inv cmp lo i q"
  shows "pq_wf (sift_down cmp q i) \<and> heap_from cmp lo (sift_down cmp q i)
         \<and> prs (sift_down cmp q i) = prs q
         \<and> length (nodes (sift_down cmp q i)) = length (nodes q)"
proof -
  let ?m = "idx q ! i"
  have i1: "1 \<le> i" using lo by simp
  have m: "?m < length (nodes q)" using pq_wfD [OF wf i1 lo(3)] by simp
  have same: "place q i ?m = q" using wf i1 lo(3) by (rule place_same)
  obtain q' i' where loop: "sift_down_loop cmp (node_pri (nodes q ! ?m)) q i = (q', i')"
    by (cases "sift_down_loop cmp (node_pri (nodes q ! ?m)) q i")
  have res: "sift_down cmp q i = place q' i' ?m"
    by (simp add: sift_down_def Let_def loop)
  have "pq_wf (place q' i' ?m) \<and> heap_from cmp lo (place q' i' ?m) \<and> prs q' = prs q
        \<and> length (nodes q') = length (nodes q)"
    by (rule sift_down_loop_inv [OF loop sw _ _ lo])
       (simp_all add: same wf inv node_pri_prs [OF m])
  then show ?thesis by (simp add: res)
qed

lemma up_invD:
  assumes "up_inv cmp i q"
  shows "\<And>k. 2 \<le> k \<Longrightarrow> k \<le> length (nodes q) \<Longrightarrow> k \<noteq> i
             \<Longrightarrow> \<not> cmp (key q (k div 2)) (key q k)"
    and "\<And>k. 2 \<le> k \<Longrightarrow> k \<le> length (nodes q) \<Longrightarrow> k div 2 = i \<Longrightarrow> 2 \<le> i
             \<Longrightarrow> \<not> cmp (key q (i div 2)) (key q k)"
  using assms unfolding up_inv_def by blast+

lemma sift_up_loop_inv:
  "sift_up_loop cmp mp q i = (q', i') \<Longrightarrow> strict_weak cmp \<Longrightarrow> pq_wf (place q i m)
   \<Longrightarrow> mp = prs q ! m \<Longrightarrow> 1 \<le> i \<Longrightarrow> i \<le> length (nodes q)
   \<Longrightarrow> up_inv cmp i (place q i m)
   \<Longrightarrow> pq_wf (place q' i' m) \<and> heap_from cmp 1 (place q' i' m) \<and> prs q' = prs q
       \<and> length (nodes q') = length (nodes q)"
proof (induction cmp mp q i rule: sift_up_loop.induct)
  case (1 cmp mp q i)
  let ?n = "length (nodes q)"
  let ?V = "place q i m"
  let ?p = "i div 2"
  let ?P = "\<lambda>k. node_pri (nodes q ! (idx q ! k))"
  note run = "1.prems"(1) and sw = "1.prems"(2) and wf = "1.prems"(3) and mp = "1.prems"(4)
    and i1 = "1.prems"(5) and inn = "1.prems"(6) and inv = "1.prems"(7)
  note invA = up_invD(1) [OF inv, simplified] and invB = up_invD(2) [OF inv, simplified]
  have len: "length (idx q) = ?n + 1" using wf by (simp add: pq_wf_def)
  have il: "i < length (idx q)" using inn len by simp
  have Ki: "key ?V i = mp" using il mp by (simp add: key_place)
  have Kk: "key ?V k = ?P k" if k: "1 \<le> k" "k \<le> ?n" "k \<noteq> i" for k
  proof -
    have "k \<le> length (nodes ?V)" using k by simp
    from pq_wfD [OF wf k(1) this] k(3) have "idx q ! k < ?n" by simp
    then show ?thesis using k(3) il by (simp add: key_place key_def node_pri_prs)
  qed
  show ?case
  proof (cases "i > 1 \<and> cmp (?P ?p) mp")
    case True
    then have i2: "2 \<le> i" and cc: "cmp (?P ?p) mp" by simp_all
    have p1: "1 \<le> ?p" and pn: "?p \<le> ?n" and pi: "?p \<noteq> i" using i2 inn by linarith+
    let ?q1 = "place q i (idx q ! ?p)"
    let ?V' = "place ?q1 ?p m"
    from run True have rec: "sift_up_loop cmp mp ?q1 ?p = (q', i')"
      by (subst (asm) sift_up_loop.simps) simp
    note hm = hole_move [OF wf i1 inn p1 pn pi]
    have Ks: "key ?V' k = (if k = ?p then key ?V i else if k = i then key ?V ?p else key ?V k)" for k
      by (rule key_swap [OF hm(2)]) (use il pn len in simp_all)
    have D: "cmp (key ?V ?p) (key ?V i)" using cc Ki Kk [OF p1 pn pi] by simp
    have inv': "up_inv cmp ?p ?V'"
      unfolding up_inv_def
    proof (intro conjI allI impI)
      fix k assume "2 \<le> k \<and> k \<le> length (nodes ?V') \<and> k \<noteq> ?p"
      then have k2: "2 \<le> k" and kn: "k \<le> ?n" and kp: "k \<noteq> ?p" by simp_all
      show "\<not> cmp (key ?V' (k div 2)) (key ?V' k)"
      proof (cases "k = i")
        case True
        have "\<not> cmp (key ?V i) (key ?V ?p)" using sw_asym [OF sw D] .
        then show ?thesis using True pi by (simp add: Ks)
      next
        case ki: False
        show ?thesis
        proof (cases "k div 2 = i")
          case True
          from invB [OF k2 kn True i2] show ?thesis using True ki kp pi by (simp add: Ks)
        next
          case kdi: False
          show ?thesis
          proof (cases "k div 2 = ?p")
            case True
            have a: "\<not> cmp (key ?V ?p) (key ?V k)" using invA [OF k2 kn ki] True by simp
            have "\<not> cmp (key ?V i) (key ?V k)"
            proof
              assume "cmp (key ?V i) (key ?V k)"
              from sw_trans [OF sw D this] a show False by simp
            qed
            then show ?thesis using True ki kp by (simp add: Ks)
          next
            case False
            from invA [OF k2 kn ki] show ?thesis using False kdi ki kp by (simp add: Ks)
          qed
        qed
      qed
    next
      fix k assume "2 \<le> k \<and> k \<le> length (nodes ?V') \<and> k div 2 = ?p \<and> 2 \<le> ?p"
      then have k2: "2 \<le> k" and kn: "k \<le> ?n" and kd: "k div 2 = ?p" and p2: "2 \<le> ?p" by simp_all
      have kp: "k \<noteq> ?p" using kd p1 by linarith
      let ?g = "?p div 2"
      have gp: "?g \<noteq> ?p" "?g \<noteq> i" using p2 by linarith+
      have a: "\<not> cmp (key ?V ?g) (key ?V ?p)" using invA [OF p2 pn pi] .
      show "\<not> cmp (key ?V' (?p div 2)) (key ?V' k)"
      proof (cases "k = i")
        case True
        then show ?thesis using a gp pi by (simp add: Ks)
      next
        case False
        have "\<not> cmp (key ?V ?p) (key ?V k)" using invA [OF k2 kn False] kd by simp
        from sw_negtrans [OF sw a this] show ?thesis using False kp gp by (simp add: Ks)
      qed
    qed
    from "1.IH" [OF True rec sw hm(1) _ p1 _ inv'] pn mp
    show ?thesis by simp
  next
    case False
    with run have "(q, i) = (q', i')"
      by (subst (asm) sift_up_loop.simps) (auto split: if_splits)
    then have res: "q' = q" "i' = i" by simp_all
    have "heap_from cmp 1 ?V"
      unfolding heap_from_def
    proof (intro allI impI)
      fix k assume "2 \<le> k \<and> k \<le> length (nodes ?V) \<and> 1 \<le> k div 2"
      then have k2: "2 \<le> k" and kn: "k \<le> ?n" by simp_all
      show "\<not> cmp (key ?V (k div 2)) (key ?V k)"
      proof (cases "k = i")
        case True
        then have i2: "2 \<le> i" using k2 by simp
        have p1: "1 \<le> ?p" and pn: "?p \<le> ?n" and pi: "?p \<noteq> i" using i2 inn by linarith+
        have "\<not> cmp (?P ?p) mp" using False i2 by simp
        then show ?thesis using True Ki Kk [OF p1 pn pi] by simp
      next
        case False
        from invA [OF k2 kn False] show ?thesis .
      qed
    qed
    with wf res show ?thesis by simp
  qed
qed

lemma sift_up_inv:
  assumes sw: "strict_weak cmp" and wf: "pq_wf q"
    and i: "1 \<le> i" "i \<le> length (nodes q)"
    and inv: "up_inv cmp i q"
  shows "pq_wf (sift_up cmp q i) \<and> heap_from cmp 1 (sift_up cmp q i)
         \<and> prs (sift_up cmp q i) = prs q
         \<and> length (nodes (sift_up cmp q i)) = length (nodes q)"
proof -
  let ?m = "idx q ! i"
  have m: "?m < length (nodes q)" using pq_wfD [OF wf i] by simp
  have same: "place q i ?m = q" using wf i by (rule place_same)
  obtain q' i' where loop: "sift_up_loop cmp (node_pri (nodes q ! ?m)) q i = (q', i')"
    by (cases "sift_up_loop cmp (node_pri (nodes q ! ?m)) q i")
  have res: "sift_up cmp q i = place q' i' ?m"
    by (simp add: sift_up_def Let_def loop)
  have "pq_wf (place q' i' ?m) \<and> heap_from cmp 1 (place q' i' ?m) \<and> prs q' = prs q
        \<and> length (nodes q') = length (nodes q)"
    by (rule sift_up_loop_inv [OF loop sw _ _ i])
       (simp_all add: same wf inv node_pri_prs [OF m])
  then show ?thesis by (simp add: res)
qed


lemma pq_wf_onto:
  assumes wf: "pq_wf q" and v: "v < length (nodes q)"
  shows "\<exists>k. 1 \<le> k \<and> k \<le> length (nodes q) \<and> idx q ! k = v"
proof -
  let ?n = "length (nodes q)"
  let ?f = "\<lambda>k. idx q ! k"
  have inj: "inj_on ?f {1..?n}"
  proof (rule inj_onI)
    fix a b assume a: "a \<in> {1..?n}" and b: "b \<in> {1..?n}" and e: "?f a = ?f b"
    from pq_wfD [OF wf, of a] a have "node_pos (nodes q ! (idx q ! a)) = a" by simp
    moreover from pq_wfD [OF wf, of b] b have "node_pos (nodes q ! (idx q ! b)) = b" by simp
    ultimately show "a = b" using e by metis
  qed
  have sub: "?f ` {1..?n} \<subseteq> {..<?n}"
    using pq_wfD [OF wf] by auto
  have "card (?f ` {1..?n}) = card {..<?n}" using inj by (simp add: card_image)
  with sub have "?f ` {1..?n} = {..<?n}" by (intro card_subset_eq) simp_all
  with v have "v \<in> ?f ` {1..?n}" by simp
  then show ?thesis by auto
qed

lemma pq_wf_pos:
  assumes wf: "pq_wf q" and v: "v < length (nodes q)"
  shows "1 \<le> node_pos (nodes q ! v)" "node_pos (nodes q ! v) \<le> length (nodes q)"
    "idx q ! node_pos (nodes q ! v) = v"
proof -
  from pq_wf_onto [OF wf v] obtain k where k: "1 \<le> k" "k \<le> length (nodes q)" "idx q ! k = v"
    by blast
  from pq_wfD [OF wf k(1,2)] k(3) have "node_pos (nodes q ! v) = k" by simp
  with k show "1 \<le> node_pos (nodes q ! v)" "node_pos (nodes q ! v) \<le> length (nodes q)"
    "idx q ! node_pos (nodes q ! v) = v" by simp_all
qed

lemma heap_fromD:
  "heap_from cmp lo q \<Longrightarrow> 2 \<le> k \<Longrightarrow> k \<le> length (nodes q) \<Longrightarrow> lo \<le> k div 2
   \<Longrightarrow> \<not> cmp (key q (k div 2)) (key q k)"
  unfolding heap_from_def by blast

lemma set_priority_inv:
  assumes sw: "strict_weak cmp" and wf: "pq_wf q" and hp: "heap_from cmp 1 q"
    and p: "pos0 < length (nodes q)"
  shows "pq_wf (set_priority cmp q new_pri pos0)
         \<and> heap_from cmp 1 (set_priority cmp q new_pri pos0)
         \<and> prs (set_priority cmp q new_pri pos0) = (prs q)[pos0 := new_pri]
         \<and> length (nodes (set_priority cmp q new_pri pos0)) = length (nodes q)"
proof -
  let ?n = "length (nodes q)"
  let ?old = "node_pri (nodes q ! pos0)"
  let ?q1 = "q\<lparr>nodes := (nodes q)[pos0 := (nodes q ! pos0)\<lparr>node_pri := new_pri\<rparr>]\<rparr>"
  let ?i = "node_pos (nodes q ! pos0)"
  note ps = pq_wf_pos [OF wf p]
  have posn: "node_pos (nodes ?q1 ! pos0) = ?i" using p by simp
  have n1: "length (nodes ?q1) = ?n" by simp
  have pos1: "node_pos ((nodes q)[pos0 := (nodes q ! pos0)\<lparr>node_pri := new_pri\<rparr>] ! v)
              = node_pos (nodes q ! v)" for v
    by (cases "v = pos0") (use p in simp_all)
  have wf1: "pq_wf ?q1"
    using wf unfolding pq_wf_def by (simp add: pos1)
  have prs1: "prs ?q1 = (prs q)[pos0 := new_pri]"
    by (simp add: prs_def map_update)
  have old: "?old = key q ?i" using ps(3) p by (simp add: key_def prs_def)
  have K1: "key ?q1 k = (if k = ?i then new_pri else key q k)" if k: "1 \<le> k" "k \<le> ?n" for k
  proof (cases "k = ?i")
    case True
    then show ?thesis using ps(3) p by (simp add: key_def prs1)
  next
    case False
    have "idx q ! k \<noteq> pos0"
    proof
      assume "idx q ! k = pos0"
      with pq_wfD [OF wf k] have "?i = k" by simp
      with False show False by simp
    qed
    then show ?thesis using False by (simp add: key_def prs1)
  qed
  have hq: "\<not> cmp (key q (k div 2)) (key q k)" if "2 \<le> k" "k \<le> ?n" for k
    using heap_fromD [OF hp that] that by simp
  have res: "set_priority cmp q new_pri pos0
             = (if cmp ?old new_pri then sift_up cmp ?q1 ?i else sift_down cmp ?q1 ?i)"
    by (simp add: set_priority_def Let_def pos1)
  have par: "1 \<le> k div 2" "k div 2 \<le> ?n" if "2 \<le> k" "k \<le> ?n" for k
    using that by linarith+
  show ?thesis
  proof (cases "cmp ?old new_pri")
    case True
    have up: "up_inv cmp ?i ?q1"
      unfolding up_inv_def
    proof (intro conjI allI impI)
      fix k assume "2 \<le> k \<and> k \<le> length (nodes ?q1) \<and> k \<noteq> ?i"
      then have k2: "2 \<le> k" and kn: "k \<le> ?n" and ki: "k \<noteq> ?i" by simp_all
      have k1: "1 \<le> k" using k2 by simp
      show "\<not> cmp (key ?q1 (k div 2)) (key ?q1 k)"
      proof (cases "k div 2 = ?i")
        case kd: True
        have a: "\<not> cmp ?old (key q k)" using hq [OF k2 kn] kd old by simp
        have "\<not> cmp new_pri (key q k)"
        proof
          assume "cmp new_pri (key q k)"
          from sw_trans [OF sw True this] a show False by simp
        qed
        then show ?thesis using kd ki K1 [OF k1 kn] K1 [OF par [OF k2 kn]] by simp
      next
        case False
        then show ?thesis using hq [OF k2 kn] ki K1 [OF k1 kn] K1 [OF par [OF k2 kn]] by simp
      qed
    next
      fix k assume "2 \<le> k \<and> k \<le> length (nodes ?q1) \<and> k div 2 = ?i \<and> 2 \<le> ?i"
      then have k2: "2 \<le> k" and kn: "k \<le> ?n" and kd: "k div 2 = ?i" and i2: "2 \<le> ?i"
        by simp_all
      have k1: "1 \<le> k" using k2 by simp
      have ki: "k \<noteq> ?i" using kd k2 by linarith
      have gi: "?i div 2 \<noteq> ?i" using i2 by linarith
      have a: "\<not> cmp (key q (?i div 2)) ?old" using hq [OF i2 ps(2)] old by simp
      have b: "\<not> cmp ?old (key q k)" using hq [OF k2 kn] kd old by simp
      from sw_negtrans [OF sw a b]
      show "\<not> cmp (key ?q1 (?i div 2)) (key ?q1 k)"
        using ki gi K1 [OF k1 kn] K1 [OF par [OF i2 ps(2)]] by simp
    qed
    from sift_up_inv [OF sw wf1 _ _ up] ps(1,2) True show ?thesis
      by (simp add: res prs1)
  next
    case False
    have down: "down_inv cmp 1 ?i ?q1"
      unfolding down_inv_def
    proof (intro conjI allI impI)
      fix k assume "2 \<le> k \<and> k \<le> length (nodes ?q1) \<and> 1 \<le> k div 2 \<and> k div 2 \<noteq> ?i"
      then have k2: "2 \<le> k" and kn: "k \<le> ?n" and kd: "k div 2 \<noteq> ?i" by simp_all
      have k1: "1 \<le> k" using k2 by simp
      show "\<not> cmp (key ?q1 (k div 2)) (key ?q1 k)"
      proof (cases "k = ?i")
        case True
        have a: "\<not> cmp (key q (k div 2)) ?old" using hq [OF k2 kn] True old by simp
        from sw_negtrans [OF sw a False]
        show ?thesis using True kd K1 [OF k1 kn] K1 [OF par [OF k2 kn]] by simp
      next
        case ki: False
        then show ?thesis using hq [OF k2 kn] kd K1 [OF k1 kn] K1 [OF par [OF k2 kn]] by simp
      qed
    next
      fix k assume "2 \<le> k \<and> k \<le> length (nodes ?q1) \<and> k div 2 = ?i \<and> 1 \<le> ?i div 2"
      then have k2: "2 \<le> k" and kn: "k \<le> ?n" and kd: "k div 2 = ?i" and "1 \<le> ?i div 2"
        by simp_all
      then have i2: "2 \<le> ?i" by linarith
      have k1: "1 \<le> k" using k2 by simp
      have ki: "k \<noteq> ?i" using kd k2 by linarith
      have gi: "?i div 2 \<noteq> ?i" using i2 by linarith
      have a: "\<not> cmp (key q (?i div 2)) ?old" using hq [OF i2 ps(2)] old by simp
      have b: "\<not> cmp ?old (key q k)" using hq [OF k2 kn] kd old by simp
      from sw_negtrans [OF sw a b]
      show "\<not> cmp (key ?q1 (?i div 2)) (key ?q1 k)"
        using ki gi K1 [OF k1 kn] K1 [OF par [OF i2 ps(2)]] by simp
    qed
    from sift_down_inv [OF sw wf1 _ _ _ down] ps(1,2) False show ?thesis
      by (simp add: res prs1)
  qed
qed


lemma heapify_fold_inv:
  assumes sw: "strict_weak cmp"
  shows "pq_wf q \<Longrightarrow> heap_from cmp (Suc j) q \<Longrightarrow> j \<le> length (nodes q)
         \<Longrightarrow> pq_wf (fold (\<lambda>i q. sift_down cmp q i) (rev [1..<Suc j]) q)
             \<and> heap_from cmp 1 (fold (\<lambda>i q. sift_down cmp q i) (rev [1..<Suc j]) q)
             \<and> prs (fold (\<lambda>i q. sift_down cmp q i) (rev [1..<Suc j]) q) = prs q
             \<and> length (nodes (fold (\<lambda>i q. sift_down cmp q i) (rev [1..<Suc j]) q))
                 = length (nodes q)"
proof (induction j arbitrary: q)
  case 0
  then show ?case by simp
next
  case (Suc j)
  let ?q1 = "sift_down cmp q (Suc j)"
  have down: "down_inv cmp (Suc j) (Suc j) q"
    unfolding down_inv_def
  proof (intro conjI allI impI)
    fix k assume "2 \<le> k \<and> k \<le> length (nodes q) \<and> Suc j \<le> k div 2 \<and> k div 2 \<noteq> Suc j"
    then have "2 \<le> k" "k \<le> length (nodes q)" "Suc (Suc j) \<le> k div 2" by simp_all
    then show "\<not> cmp (key q (k div 2)) (key q k)" by (rule heap_fromD [OF Suc.prems(2)])
  next
    fix k assume "2 \<le> k \<and> k \<le> length (nodes q) \<and> k div 2 = Suc j \<and> Suc j \<le> Suc j div 2"
    then have "Suc j \<le> Suc j div 2" by simp
    then have False by linarith
    then show "\<not> cmp (key q (Suc j div 2)) (key q k)" ..
  qed
  have s: "pq_wf ?q1 \<and> heap_from cmp (Suc j) ?q1 \<and> prs ?q1 = prs q
           \<and> length (nodes ?q1) = length (nodes q)"
    by (rule sift_down_inv [OF sw Suc.prems(1) _ _ Suc.prems(3) down]) simp_all
  then have "j \<le> length (nodes ?q1)" using Suc.prems(3) by simp
  from Suc.IH [of ?q1] s this
  have "pq_wf (fold (\<lambda>i q. sift_down cmp q i) (rev [1..<Suc j]) ?q1)
        \<and> heap_from cmp 1 (fold (\<lambda>i q. sift_down cmp q i) (rev [1..<Suc j]) ?q1)
        \<and> prs (fold (\<lambda>i q. sift_down cmp q i) (rev [1..<Suc j]) ?q1) = prs ?q1
        \<and> length (nodes (fold (\<lambda>i q. sift_down cmp q i) (rev [1..<Suc j]) ?q1))
            = length (nodes ?q1)"
    by blast
  moreover have "fold (\<lambda>i q. sift_down cmp q i) (rev [1..<Suc (Suc j)]) q
                 = fold (\<lambda>i q. sift_down cmp q i) (rev [1..<Suc j]) ?q1"
    by simp
  ultimately show ?case using s by simp
qed

lemma mk_pqueue_inv:
  assumes sw: "strict_weak cmp"
  shows "pq_wf (mk_pqueue cmp pv) \<and> heap_from cmp 1 (mk_pqueue cmp pv)
         \<and> prs (mk_pqueue cmp pv) = pv \<and> length (nodes (mk_pqueue cmp pv)) = length pv"
proof -
  let ?n = "length pv"
  let ?q0 = "\<lparr>nodes = map (\<lambda>i. \<lparr>node_pri = pv ! i, node_pos = i + 1\<rparr>) [0..<?n],
              idx = 0 # map (\<lambda>i. i) [0..<?n]\<rparr>"
  let ?s = "length (idx ?q0) div 2"
  have wf0: "pq_wf ?q0"
    unfolding pq_wf_def
  proof (intro conjI allI impI)
    show "length (idx ?q0) = length (nodes ?q0) + 1" by simp
  next
    fix k assume "1 \<le> k \<and> k \<le> length (nodes ?q0)"
    then have k: "1 \<le> k" "k \<le> ?n" by simp_all
    then obtain k' where k': "k = Suc k'" "k' < ?n" by (cases k) simp_all
    then show "idx ?q0 ! k < length (nodes ?q0)" "node_pos (nodes ?q0 ! (idx ?q0 ! k)) = k"
      by simp_all
  qed
  have prs0: "prs ?q0 = pv" by (simp add: prs_def comp_def map_nth)
  have n0: "length (nodes ?q0) = ?n" by simp
  have hp0: "heap_from cmp (Suc ?s) ?q0"
    unfolding heap_from_def
  proof (intro allI impI)
    fix k assume "2 \<le> k \<and> k \<le> length (nodes ?q0) \<and> Suc ?s \<le> k div 2"
    then have "k \<le> ?n" "Suc ((?n + 1) div 2) \<le> k div 2" by simp_all
    then have False by linarith
    then show "\<not> cmp (key ?q0 (k div 2)) (key ?q0 k)" ..
  qed
  have sn: "?s \<le> length (nodes ?q0)" by simp
  from heapify_fold_inv [OF sw wf0 hp0 sn] prs0 n0
  show ?thesis by (simp add: mk_pqueue_def heapify_def Let_def)
qed

lemma top_max:
  assumes sw: "strict_weak cmp" and wf: "pq_wf q" and hp: "heap_from cmp 1 q"
    and n: "0 < length (nodes q)"
  shows "top_pq q < length (nodes q)"
    and "\<And>v. v < length (nodes q) \<Longrightarrow> \<not> cmp (prs q ! top_pq q) (prs q ! v)"
proof -
  let ?n = "length (nodes q)"
  have irr: "\<not> cmp a a" for a using sw_asym [OF sw, of a a] by blast
  show t: "top_pq q < ?n" using pq_wfD [OF wf, of 1] n by (simp add: top_pq_def)
  have up: "\<not> cmp (key q 1) (key q k)" if "1 \<le> k" "k \<le> ?n" for k
    using that
  proof (induction k rule: less_induct)
    case (less k)
    show ?case
    proof (cases "k = 1")
      case True
      then show ?thesis using irr by simp
    next
      case False
      then have k2: "2 \<le> k" using less.prems by simp
      have "k div 2 < k" "1 \<le> k div 2" "k div 2 \<le> ?n" using k2 less.prems by linarith+
      then have a: "\<not> cmp (key q 1) (key q (k div 2))" by (intro less.IH)
      have b: "\<not> cmp (key q (k div 2)) (key q k)"
        using heap_fromD [OF hp k2 less.prems(2)] k2 by simp
      from sw_negtrans [OF sw a b] show ?thesis .
    qed
  qed
  fix v assume "v < ?n"
  from pq_wf_onto [OF wf this] obtain k where k: "1 \<le> k" "k \<le> ?n" "idx q ! k = v" by blast
  from up [OF k(1,2)] k(3) show "\<not> cmp (prs q ! top_pq q) (prs q ! v)"
    by (simp add: key_def top_pq_def)
qed

lemma pq_less_strict_weak: "strict_weak pq_less"
  unfolding strict_weak_def pq_less_def by (auto split: if_splits)

lemma set_priorities_inv:
  assumes sw: "strict_weak cmp"
  shows "pq_wf q \<Longrightarrow> heap_from cmp 1 q \<Longrightarrow> \<forall>(e, p)\<in>set ups. p < length (nodes q)
    \<Longrightarrow> pq_wf (fold (\<lambda>(e, p) q. set_priority cmp q e p) ups q)
        \<and> heap_from cmp 1 (fold (\<lambda>(e, p) q. set_priority cmp q e p) ups q)
        \<and> prs (fold (\<lambda>(e, p) q. set_priority cmp q e p) ups q)
            = fold (\<lambda>(e, p) v. v[p := e]) ups (prs q)
        \<and> length (nodes (fold (\<lambda>(e, p) q. set_priority cmp q e p) ups q)) = length (nodes q)"
proof (induction ups arbitrary: q)
  case Nil
  then show ?case by simp
next
  case (Cons u ups)
  obtain e p where u: "u = (e, p)" by (cases u)
  have p: "p < length (nodes q)" using Cons.prems(3) u by simp
  note s = set_priority_inv [OF sw Cons.prems(1,2) p, of e]
  have "\<forall>(e', p')\<in>set ups. p' < length (nodes (set_priority cmp q e p))"
    using Cons.prems(3) s by simp
  from Cons.IH [OF _ _ this] s show ?case by (simp add: u)
qed


lemma fold_update_length:
  "length (fold (\<lambda>(e, p) v. v[p := e]) ups v) = length v"
  by (induction ups arbitrary: v) (auto split: prod.splits)

text \<open>
  Claim C5. Build the queue from a non-empty vector \<open>pv\<close> of entries and apply any
  sequence \<open>ups\<close> of \<^verbatim>\<open>set_priority\<close> calls on positions of the vector; \<open>cur\<close> is the
  vector with the same updates applied, the current entries. Then \<^verbatim>\<open>priority\<close> returns
  the current entry of every position, \<^verbatim>\<open>top\<close> returns a position of the vector and
  \<^verbatim>\<open>top_priority\<close> its current entry, no entry has a smaller \<open>entry_pri\<close> than the top_pq,
  and among the entries with the \<open>entry_pri\<close> of the top_pq none has a larger \<open>prox\<close>.
\<close>

theorem pqueue_top_smallest_pri_largest_prox:
  assumes "pv \<noteq> []" and "\<forall>(e, p)\<in>set ups. p < length pv"
  shows "let q = fold (\<lambda>(e, p) q. set_priority pq_less q e p) ups (mk_pqueue pq_less pv);
             cur = fold (\<lambda>(e, p) v. v[p := e]) ups pv
         in top_pq q < length pv
            \<and> map (priority q) [0..<length pv] = cur
            \<and> top_priority q = cur ! top_pq q
            \<and> (\<forall>j<length pv. entry_pri (cur ! top_pq q) \<le> entry_pri (cur ! j))
            \<and> (\<forall>j<length pv. entry_pri (cur ! j) = entry_pri (cur ! top_pq q)
                   \<longrightarrow> prox (cur ! j) \<le> prox (cur ! top_pq q))"
proof -
  let ?qa = "mk_pqueue pq_less pv"
  let ?q = "fold (\<lambda>(e, p) q. set_priority pq_less q e p) ups ?qa"
  let ?cur = "fold (\<lambda>(e, p) v. v[p := e]) ups pv"
  note sw = pq_less_strict_weak
  note m = mk_pqueue_inv [OF sw, of pv]
  from m have wf0: "pq_wf ?qa" and hp0: "heap_from pq_less 1 ?qa" and prs0: "prs ?qa = pv"
    and len0: "length (nodes ?qa) = length pv"
    by simp_all
  have ups0: "\<forall>(e, p)\<in>set ups. p < length (nodes ?qa)" using assms(2) by (simp only: len0)
  note s = set_priorities_inv [OF sw wf0 hp0 ups0]
  from s have wf: "pq_wf ?q" and hp: "heap_from pq_less 1 ?q" by blast+
  from s have pr: "prs ?q = ?cur" by (simp only: prs0)
  from s have len: "length (nodes ?q) = length pv" by (simp only: len0)
  have n: "0 < length (nodes ?q)" using assms(1) len by simp
  note t = top_max [OF sw wf hp n]
  have t1: "top_pq ?q < length pv" using t(1) len by simp
  have best: "\<not> pq_less (?cur ! top_pq ?q) (?cur ! j)" if "j < length pv" for j
    using t(2) [of j] that len pr by simp
  have p1: "map (priority ?q) [0..<length pv] = ?cur"
  proof (rule nth_equalityI)
    show "length (map (priority ?q) [0..<length pv]) = length ?cur"
      by (simp add: fold_update_length)
  next
    fix i assume "i < length (map (priority ?q) [0..<length pv])"
    then have i: "i < length pv" by simp
    then have "priority ?q i = prs ?q ! i" using len by (simp add: priority_def node_pri_prs)
    then show "map (priority ?q) [0..<length pv] ! i = ?cur ! i" using i pr by simp
  qed
  have p2: "top_priority ?q = ?cur ! top_pq ?q"
    using t(1) pr by (simp add: top_priority_def top_pq_def node_pri_prs)
  have p3: "entry_pri (?cur ! top_pq ?q) \<le> entry_pri (?cur ! j)" if "j < length pv" for j
    using best [OF that] by (auto simp: pq_less_def split: if_splits)
  have p4: "prox (?cur ! j) \<le> prox (?cur ! top_pq ?q)"
    if "j < length pv" "entry_pri (?cur ! j) = entry_pri (?cur ! top_pq ?q)" for j
    using best [OF that(1)] that(2) by (auto simp: pq_less_def split: if_splits)
  from t1 p1 p2 p3 p4 show ?thesis unfolding Let_def by blast
qed

text \<open>
  The scenario of the specification: the queue built from the entries
  \<open>(prox, pri) = (1, 5), (2, 5), (0, 3)\<close> has the top_pq 2, and after the entry 2 is set to
  \<open>(0, 10)\<close> the top_pq is 1.
\<close>

theorem pqueue_top_smallest_pri_largest_prox_witness:
  "top_pq (mk_pqueue pq_less
          [\<lparr>prox = 1, entry_pri = 5\<rparr>, \<lparr>prox = 2, entry_pri = 5\<rparr>, \<lparr>prox = 0, entry_pri = 3\<rparr>]) = 2
   \<and> top_pq (set_priority pq_less
            (mk_pqueue pq_less
               [\<lparr>prox = 1, entry_pri = 5\<rparr>, \<lparr>prox = 2, entry_pri = 5\<rparr>, \<lparr>prox = 0, entry_pri = 3\<rparr>])
            \<lparr>prox = 0, entry_pri = 10\<rparr> 2) = 1"
proof
  let ?pv = "[\<lparr>prox = 1, entry_pri = 5\<rparr>, \<lparr>prox = 2, entry_pri = 5\<rparr>, \<lparr>prox = 0, entry_pri = 3\<rparr>]"
  let ?qa = "mk_pqueue pq_less ?pv"
  have ne: "?pv \<noteq> []" by simp
  have u0: "\<forall>(e, p)\<in>set ([] :: (pq_entry \<times> nat) list). p < length ?pv" by simp
  from pqueue_top_smallest_pri_largest_prox [OF ne u0]
  have a: "top_pq ?qa < length ?pv"
    and b: "\<forall>j<length ?pv. entry_pri (?pv ! top_pq ?qa) \<le> entry_pri (?pv ! j)"
    unfolding Let_def fold.simps id_apply by blast+
  from a have "top_pq ?qa = 0 \<or> top_pq ?qa = 1 \<or> top_pq ?qa = 2" by (auto simp: less_Suc_eq numeral_2_eq_2)
  moreover have "entry_pri (?pv ! top_pq ?qa) \<le> entry_pri (?pv ! 2)"
    using b [rule_format, of 2] by simp
  ultimately show "top_pq ?qa = 2" by auto
next
  let ?pv = "[\<lparr>prox = 1, entry_pri = 5\<rparr>, \<lparr>prox = 2, entry_pri = 5\<rparr>, \<lparr>prox = 0, entry_pri = 3\<rparr>]"
  let ?qa = "mk_pqueue pq_less ?pv"
  let ?qb = "set_priority pq_less ?qa \<lparr>prox = 0, entry_pri = 10\<rparr> 2"
  let ?cur = "?pv[2 := \<lparr>prox = 0, entry_pri = 10\<rparr>]"
  have ne: "?pv \<noteq> []" by simp
  have u1: "\<forall>(e, p)\<in>set [(\<lparr>prox = 0, entry_pri = 10\<rparr>, 2)]. p < length ?pv" by simp
  from pqueue_top_smallest_pri_largest_prox [OF ne u1]
  have a: "top_pq ?qb < length ?pv"
    and b: "\<forall>j<length ?pv. entry_pri (?cur ! top_pq ?qb) \<le> entry_pri (?cur ! j)"
    and c: "\<forall>j<length ?pv. entry_pri (?cur ! j) = entry_pri (?cur ! top_pq ?qb)
            \<longrightarrow> prox (?cur ! j) \<le> prox (?cur ! top_pq ?qb)"
    unfolding Let_def fold.simps id_apply o_apply prod.case by blast+
  from a have "top_pq ?qb = 0 \<or> top_pq ?qb = 1 \<or> top_pq ?qb = 2" by (auto simp: less_Suc_eq numeral_2_eq_2)
  moreover have "entry_pri (?cur ! top_pq ?qb) \<le> entry_pri (?cur ! 1)"
    using b [rule_format, of 1] by simp
  moreover have "entry_pri (?cur ! 1) = entry_pri (?cur ! top_pq ?qb)
            \<longrightarrow> prox (?cur ! 1) \<le> prox (?cur ! top_pq ?qb)"
    using c [rule_format, of 1] by simp
  ultimately show "top_pq ?qb = 1" by auto
qed

end
